theory Spec2Isabelle
  imports Main "HOL-Library.Word"
begin

chapter \<open>JSChain: the chain-integrity engine of \<^verbatim>\<open>app.js\<close>\<close>

text \<open>
  A shallow embedding of \<^verbatim>\<open>src/app.js\<close>: the block model, the hash computation, the link
  and chain validators, the replacement policy, startup and the route that mines a block,
  followed by the properties the specification states about them.
\<close>

unbundle bit_operations_syntax

section \<open>The digest: \<^verbatim>\<open>CryptoJS.SHA512(message).toString()\<close>\<close>

text \<open>
  \<^verbatim>\<open>calculateHash\<close> hands one string to \<^verbatim>\<open>CryptoJS.SHA512\<close> and turns the result
  into lower-case hexadecimal with \<^verbatim>\<open>toString()\<close>. The library is not part of
  \<^verbatim>\<open>app.js\<close>; what it computes is written out in this section, so that every function
  of \<^verbatim>\<open>app.js\<close> below is a closed, executable definition. A \<^typ>\<open>string\<close> is the UTF-8
  byte sequence of the JavaScript string, which is what the library digests.
\<close>

type_synonym w64 = "64 word"

type_synonym sha_state = "w64 \<times> w64 \<times> w64 \<times> w64 \<times> w64 \<times> w64 \<times> w64 \<times> w64"

text \<open>
  The round constants are the first 64 bits of the fractional parts of the cube roots of
  the first eighty primes, and the initial state those of the square roots of the first
  eight. \<open>root_bits k n b r\<close> settles the low \<open>b\<close> bits of the integer \<open>k\<close>-th root of
  \<open>n\<close>, from the highest down.
\<close>

definition is_prime :: "nat \<Rightarrow> bool" where
  "is_prime n = (1 < n \<and> filter (\<lambda>d. n mod d = 0) [2..<n] = [])"

definition primes80 :: "nat list" where
  "primes80 = filter is_prime [2..<410]"

fun root_bits :: "nat \<Rightarrow> nat \<Rightarrow> nat \<Rightarrow> nat \<Rightarrow> nat" where
  "root_bits k n 0 r = r"
| "root_bits k n (Suc b) r =
     root_bits k n b (if (r + 2 ^ b) ^ k \<le> n then r + 2 ^ b else r)"

definition frac_root :: "nat \<Rightarrow> nat \<Rightarrow> w64" where
  "frac_root k p = of_nat (root_bits k (p * 2 ^ (64 * k)) 72 0)"

definition K512 :: "w64 list" where
  "K512 = map (frac_root 3) primes80"

definition H512 :: sha_state where
  "H512 = (frac_root 2 2, frac_root 2 3, frac_root 2 5, frac_root 2 7,
           frac_root 2 11, frac_root 2 13, frac_root 2 17, frac_root 2 19)"

definition Ch :: "w64 \<Rightarrow> w64 \<Rightarrow> w64 \<Rightarrow> w64" where
  "Ch x y z = (x AND y) XOR (NOT x AND z)"

definition Maj :: "w64 \<Rightarrow> w64 \<Rightarrow> w64 \<Rightarrow> w64" where
  "Maj x y z = (x AND y) XOR (x AND z) XOR (y AND z)"

definition Sigma0 :: "w64 \<Rightarrow> w64" where
  "Sigma0 x = word_rotr 28 x XOR word_rotr 34 x XOR word_rotr 39 x"

definition Sigma1 :: "w64 \<Rightarrow> w64" where
  "Sigma1 x = word_rotr 14 x XOR word_rotr 18 x XOR word_rotr 41 x"

definition gamma0 :: "w64 \<Rightarrow> w64" where
  "gamma0 x = word_rotr 1 x XOR word_rotr 8 x XOR drop_bit 7 x"

definition gamma1 :: "w64 \<Rightarrow> w64" where
  "gamma1 x = word_rotr 19 x XOR word_rotr 61 x XOR drop_bit 6 x"

definition be_bytes :: "nat \<Rightarrow> nat \<Rightarrow> nat list" where
  "be_bytes n v = map (\<lambda>i. (v div 256 ^ (n - 1 - i)) mod 256) [0..<n]"

text \<open>Padding: the byte 0x80, zero bytes up to 112 modulo 128, the bit length on 16 bytes.\<close>

definition sha512_pad :: "nat list \<Rightarrow> nat list" where
  "sha512_pad bs =
     bs @ [128] @ replicate ((111 + 128 - length bs mod 128) mod 128) 0
        @ be_bytes 16 (8 * length bs)"

definition be_word :: "nat list \<Rightarrow> w64" where
  "be_word bs = foldl (\<lambda>w b. push_bit 8 w OR of_nat b) 0 bs"

function chunks :: "nat \<Rightarrow> 'a list \<Rightarrow> 'a list list" where
  "chunks n xs = (if n = 0 \<or> xs = [] then [] else take n xs # chunks n (drop n xs))"
  by pat_completeness auto
termination
  by (relation "measure (\<lambda>(n, xs). length xs)") auto

declare chunks.simps [simp del]

text \<open>The message schedule: 16 words of the block, extended to 80.\<close>

fun schedule :: "nat \<Rightarrow> w64 list \<Rightarrow> w64 list" where
  "schedule 0 w = w"
| "schedule (Suc n) w =
     (let t = length w
      in schedule n
           (w @ [gamma1 (w ! (t - 2)) + w ! (t - 7) + gamma0 (w ! (t - 15)) + w ! (t - 16)]))"

fun sha_round :: "sha_state \<Rightarrow> w64 \<times> w64 \<Rightarrow> sha_state" where
  "sha_round (a, b, c, d, e, f, g, h) (k, w) =
     (let t1 = h + Sigma1 e + Ch e f g + k + w;
          t2 = Sigma0 a + Maj a b c
      in (t1 + t2, a, b, c, d + t1, e, f, g))"

fun sha_add :: "sha_state \<Rightarrow> sha_state \<Rightarrow> sha_state" where
  "sha_add (a, b, c, d, e, f, g, h) (a', b', c', d', e', f', g', h') =
     (a + a', b + b', c + c', d + d', e + e', f + f', g + g', h + h')"

definition sha_block :: "sha_state \<Rightarrow> nat list \<Rightarrow> sha_state" where
  "sha_block st bs =
     sha_add st (foldl sha_round st (zip K512 (schedule 64 (map be_word (chunks 8 bs)))))"

definition hex_digit :: "nat \<Rightarrow> char" where
  "hex_digit n = ''0123456789abcdef'' ! (n mod 16)"

definition hex64 :: "w64 \<Rightarrow> string" where
  "hex64 w = map (\<lambda>i. hex_digit (unat (drop_bit (4 * (15 - i)) w))) [0..<16]"

fun sha_hex :: "sha_state \<Rightarrow> string" where
  "sha_hex (a, b, c, d, e, f, g, h) =
     hex64 a @ hex64 b @ hex64 c @ hex64 d @ hex64 e @ hex64 f @ hex64 g @ hex64 h"

text \<open>
  Modelled from the spec: the digest function \<^verbatim>\<open>CryptoJS.SHA512(message).toString()\<close>,
  whose code is in the library and not in \<^verbatim>\<open>app.js\<close>. The spec asks for a pure,
  deterministic cryptographic digest of the 512-bit class over the string handed to it;
  the source names SHA-512, which is what the definitions above lay out after FIPS 180-4:
  the digest as 128 lower-case hexadecimal digits.
\<close>

definition SHA512 :: "string \<Rightarrow> string" where
  "SHA512 s = sha_hex (foldl sha_block H512 (chunks 128 (sha512_pad (map of_char s))))"

section \<open>JavaScript values and their string forms\<close>

text \<open>
  A block's \<^verbatim>\<open>index\<close> is a whole number, held in a JavaScript number; sums of such
  numbers are rounded as laid out further down. Its \<^verbatim>\<open>timestamp\<close> is a number of seconds that need
  not be whole: \<^verbatim>\<open>generateNextBlock\<close> computes \<^verbatim>\<open>new Date().getTime() / 1000\<close> from a clock
  that counts whole milliseconds. Such numbers are kept exactly, as a count of thousandths:
  \<open>Milli k\<close> is the JavaScript number \<open>k / 1000\<close>, and \<open>whole i\<close> is the integer \<open>i\<close>.
\<close>

datatype number = Milli int

definition whole :: "int \<Rightarrow> number" where
  "whole i = Milli (1000 * i)"

definition digit_char :: "nat \<Rightarrow> char" where
  "digit_char n = ''0123456789'' ! (n mod 10)"

fun digits :: "nat \<Rightarrow> string" where
  "digits n = (if n < 10 then [digit_char n] else digits (n div 10) @ [digit_char (n mod 10)])"

declare digits.simps [simp del]

text \<open>
  \<^verbatim>\<open>Number.prototype.toString\<close>: the shortest decimal that reads back as the same number.
  For an integer that is its decimal digits; for \<open>k / 1000\<close> it is the integer part, then
  a point and up to three decimals without trailing zeros. (Magnitudes from \<open>10\<^sup>2\<^sup>1\<close> on,
  which JavaScript prints with an exponent, are outside this model: neither an index nor a
  clock reading comes near them.)
\<close>

definition int_toString :: "int \<Rightarrow> string" where
  "int_toString i = (if i < 0 then ''-'' else []) @ digits (nat \<bar>i\<bar>)"

definition fraction :: "nat \<Rightarrow> string" where
  "fraction r =
     (if r = 0 then []
      else if r mod 100 = 0 then [CHR ''.'', digit_char (r div 100)]
      else if r mod 10 = 0 then [CHR ''.'', digit_char (r div 100), digit_char (r div 10)]
      else [CHR ''.'', digit_char (r div 100), digit_char (r div 10), digit_char r])"

fun Number_toString :: "number \<Rightarrow> string" where
  "Number_toString (Milli k) =
     (if k < 0 then ''-'' else []) @ digits (nat \<bar>k\<bar> div 1000) @ fraction (nat \<bar>k\<bar> mod 1000)"

text \<open>
  Arithmetic. A JavaScript number is an IEEE double: 53 significant bits. The sum of two
  numbers is the exact sum rounded to the nearest double, with ties going to the double
  whose last significant bit is 0. Whole numbers up to \<open>2\<^sup>5\<^sup>3\<close> in magnitude are doubles,
  and so are the multiples of \<open>2\<^sup>e\<close> with 53 significant bits above them. \<open>bit_length a\<close>
  is the number of bits of \<open>a\<close>. (A sum beyond the largest double is \<^verbatim>\<open>Infinity\<close>, which
  is not a value of the model; adding 1 to a double never gets there.)
\<close>

fun bit_length :: "nat \<Rightarrow> nat" where
  "bit_length n = (if n = 0 then 0 else Suc (bit_length (n div 2)))"

declare bit_length.simps [simp del]

definition round_to_double :: "int \<Rightarrow> int" where
  "round_to_double n =
     (let a = nat \<bar>n\<bar>;
          ulp = 2 ^ (bit_length a - 53);
          q = a div ulp;
          r = a mod ulp;
          m = (if ulp < 2 * r \<or> (2 * r = ulp \<and> odd q) then q + 1 else q)
      in sgn n * int (m * ulp))"

definition Number_add :: "int \<Rightarrow> int \<Rightarrow> int" where
  "Number_add x y = round_to_double (x + y)"

text \<open>
  The payload \<^verbatim>\<open>data\<close> is whatever \<^verbatim>\<open>req.body.data\<close> holds after the JSON body parser:
  any JSON value, or \<^verbatim>\<open>undefined\<close> when the request has no such member. An object is its
  members in enumeration order.
\<close>

datatype jsvalue =
    JUndefined
  | JNull
  | JBool bool
  | JNum number
  | JStr string
  | JArr "jsvalue list"
  | JObj "(string \<times> jsvalue) list"

fun js_join :: "string \<Rightarrow> string list \<Rightarrow> string" where
  "js_join sep [] = []"
| "js_join sep [x] = x"
| "js_join sep (x # y # ys) = x @ sep @ js_join sep (y # ys)"

text \<open>
  \<^verbatim>\<open>ToString\<close>, the conversion that \<^verbatim>\<open>+\<close> applies to the right operand once the left one
  is a string: an array is its elements joined by commas (\<^verbatim>\<open>undefined\<close> and \<^verbatim>\<open>null\<close>
  elements as the empty string), and a plain object is \<^verbatim>\<open>[object Object]\<close>.
\<close>

fun ToString :: "jsvalue \<Rightarrow> string" where
  "ToString JUndefined = ''undefined''"
| "ToString JNull = ''null''"
| "ToString (JBool b) = (if b then ''true'' else ''false'')"
| "ToString (JNum n) = Number_toString n"
| "ToString (JStr s) = s"
| "ToString (JArr xs) =
     js_join '','' (map (\<lambda>x. if x = JUndefined \<or> x = JNull then [] else ToString x) xs)"
| "ToString (JObj kvs) = ''[object Object]''"

text \<open>
  \<^verbatim>\<open>JSON.stringify\<close>. A string is quoted, with the quote, the backslash and the control
  characters escaped. The result is \<^verbatim>\<open>undefined\<close> (here \<open>None\<close>) for \<^verbatim>\<open>undefined\<close>; inside
  an array that prints as \<^verbatim>\<open>null\<close>, and a member of an object with that value is left out.
\<close>

definition JSON_quote_char :: "char \<Rightarrow> string" where
  "JSON_quote_char c =
     (if c = CHR 0x08 then [CHR 0x5C, CHR ''b'']
      else if c = CHR 0x09 then [CHR 0x5C, CHR ''t'']
      else if c = CHR 0x0A then [CHR 0x5C, CHR ''n'']
      else if c = CHR 0x0C then [CHR 0x5C, CHR ''f'']
      else if c = CHR 0x0D then [CHR 0x5C, CHR ''r'']
      else if c = CHR 0x22 then [CHR 0x5C, CHR 0x22]
      else if c = CHR 0x5C then [CHR 0x5C, CHR 0x5C]
      else if (of_char c :: nat) < 32
        then [CHR 0x5C, CHR ''u'', CHR ''0'', CHR ''0'',
              hex_digit (of_char c div 16), hex_digit (of_char c mod 16)]
      else [c])"

definition JSON_quote :: "string \<Rightarrow> string" where
  "JSON_quote s = CHR 0x22 # concat (map JSON_quote_char s) @ [CHR 0x22]"

fun JSON_stringify :: "jsvalue \<Rightarrow> string option" where
  "JSON_stringify JUndefined = None"
| "JSON_stringify JNull = Some ''null''"
| "JSON_stringify (JBool b) = Some (if b then ''true'' else ''false'')"
| "JSON_stringify (JNum n) = Some (Number_toString n)"
| "JSON_stringify (JStr s) = Some (JSON_quote s)"
| "JSON_stringify (JArr xs) =
     Some (''['' @ js_join '',''
             (map (\<lambda>x. case JSON_stringify x of None \<Rightarrow> ''null'' | Some s \<Rightarrow> s) xs) @ '']'')"
| "JSON_stringify (JObj kvs) =
     Some (''{'' @ js_join '',''
             (concat (map (\<lambda>(k, v). case JSON_stringify v of
                                        None \<Rightarrow> []
                                      | Some s \<Rightarrow> [JSON_quote k @ '':'' @ s]) kvs)) @ ''}'')"

section \<open>Blocks and the chain validator\<close>

text \<open>
  \<^verbatim>\<open>class Block\<close>. The constructor applies \<^verbatim>\<open>toString()\<close> to \<^verbatim>\<open>previousHash\<close> and
  \<^verbatim>\<open>hash\<close>, which returns a string unchanged.

  A block in the program is an object: besides the values of its five fields it has its
  own members in an order, the one in which \<^verbatim>\<open>JSON.stringify\<close> goes through them, and it
  may have further members. \<open>members\<close> lists them: the five fields by name, and a further
  member with its name and value. The constructor creates the five in the order of its
  assignments. The objects that \<^verbatim>\<open>db.find\<close> returns are built by the store, with the
  members in the order of the \<^verbatim>\<open>fields\<close> of the query: index, data, timestamp,
  previousHash, hash.
\<close>

datatype member =
    M_index
  | M_previousHash
  | M_timestamp
  | M_data
  | M_hash
  | M_other string jsvalue

record block =
  index :: int
  previousHash :: string
  timestamp :: number
  data :: jsvalue
  hash :: string
  members :: "member list"

definition constructor_order :: "member list" where
  "constructor_order = [M_index, M_previousHash, M_timestamp, M_data, M_hash]"

definition stored_order :: "member list" where
  "stored_order = [M_index, M_data, M_timestamp, M_previousHash, M_hash]"

definition Block :: "int \<Rightarrow> string \<Rightarrow> number \<Rightarrow> jsvalue \<Rightarrow> string \<Rightarrow> block" where
  "Block idx prev ts dat h =
     \<lparr>index = idx, previousHash = prev, timestamp = ts, data = dat, hash = h,
      members = constructor_order\<rparr>"

text \<open>
  \<^verbatim>\<open>index + previousHash + timestamp + data\<close>: a number plus a string is the concatenation
  of their string forms, and so is every later \<^verbatim>\<open>+\<close>, whose left operand is a string.
  There is no separator between the four parts.
\<close>

definition hashInput :: "int \<Rightarrow> string \<Rightarrow> number \<Rightarrow> jsvalue \<Rightarrow> string" where
  "hashInput idx prev ts dat = int_toString idx @ prev @ Number_toString ts @ ToString dat"

definition calculateHash :: "int \<Rightarrow> string \<Rightarrow> number \<Rightarrow> jsvalue \<Rightarrow> string" where
  "calculateHash idx prev ts dat = SHA512 (hashInput idx prev ts dat)"

definition calculateHashForBlock :: "block \<Rightarrow> string" where
  "calculateHashForBlock b = calculateHash (index b) (previousHash b) (timestamp b) (data b)"

text \<open>
  The string a block's digest is taken of, and what it means for SHA-512 to map two
  different strings to the same digest.
\<close>

definition blockInput :: "block \<Rightarrow> string" where
  "blockInput b = hashInput (index b) (previousHash b) (timestamp b) (data b)"

definition collision :: "string \<Rightarrow> string \<Rightarrow> bool" where
  "collision x y = (x \<noteq> y \<and> SHA512 x = SHA512 y)"

definition getGenesisBlock :: block where
  "getGenesisBlock =
     Block 0 ''0'' (whole 1465154705) (JStr ''JSChain genesis block'')
       ''816534932c2b7154836da6afc367695e6337db8a921823784c14378abed4f7d7''"

text \<open>
  \<^verbatim>\<open>isValidNewBlock\<close>; the messages it writes to the console are left out. The sum
  \<^verbatim>\<open>previousBlock.index + 1\<close> is a sum of JavaScript numbers.
\<close>

definition isValidNewBlock :: "block \<Rightarrow> block \<Rightarrow> bool" where
  "isValidNewBlock newBlock previousBlock =
     (if Number_add (index previousBlock) 1 \<noteq> index newBlock then False
      else if hash previousBlock \<noteq> previousHash newBlock then False
      else if calculateHashForBlock newBlock \<noteq> hash newBlock then False
      else True)"

text \<open>
  \<^verbatim>\<open>JSON.stringify\<close> of a block: its members in their order, each as its quoted name, a
  colon and the JSON text of its value. A member whose value is \<^verbatim>\<open>undefined\<close> is left
  out. The value of a field is the value the record holds; a further member under the
  name of a field would be that field, so it prints nothing.
\<close>

definition field_names :: "string list" where
  "field_names = [''index'', ''previousHash'', ''timestamp'', ''data'', ''hash'']"

fun member_key :: "member \<Rightarrow> string" where
  "member_key M_index = ''index''"
| "member_key M_previousHash = ''previousHash''"
| "member_key M_timestamp = ''timestamp''"
| "member_key M_data = ''data''"
| "member_key M_hash = ''hash''"
| "member_key (M_other k v) = k"

fun member_value :: "block \<Rightarrow> member \<Rightarrow> string option" where
  "member_value b M_index = Some (int_toString (index b))"
| "member_value b M_previousHash = Some (JSON_quote (previousHash b))"
| "member_value b M_timestamp = Some (Number_toString (timestamp b))"
| "member_value b M_data = JSON_stringify (data b)"
| "member_value b M_hash = Some (JSON_quote (hash b))"
| "member_value b (M_other k v) = (if k \<in> set field_names then None else JSON_stringify v)"

definition member_text :: "block \<Rightarrow> member \<Rightarrow> string list" where
  "member_text b m =
     (case member_value b m of
        None \<Rightarrow> []
      | Some t \<Rightarrow> [JSON_quote (member_key m) @ '':'' @ t])"

definition JSON_stringify_block :: "block \<Rightarrow> string" where
  "JSON_stringify_block b =
     ''{'' @ js_join '','' (concat (map (member_text b) (members b))) @ ''}''"

text \<open>
  The same text member by member: \<open>members_text\<close> is what follows the opening brace,
  \<open>more_members_text\<close> what follows a printed member, up to and with the closing brace.
\<close>

fun more_members_text :: "block \<Rightarrow> member list \<Rightarrow> string" where
  "more_members_text b [] = ''}''"
| "more_members_text b (m # ms) =
     (case member_value b m of
        None \<Rightarrow> more_members_text b ms
      | Some t \<Rightarrow> '','' @ JSON_quote (member_key m) @ '':'' @ t @ more_members_text b ms)"

fun members_text :: "block \<Rightarrow> member list \<Rightarrow> string" where
  "members_text b [] = ''}''"
| "members_text b (m # ms) =
     (case member_value b m of
        None \<Rightarrow> members_text b ms
      | Some t \<Rightarrow> JSON_quote (member_key m) @ '':'' @ t @ more_members_text b ms)"

text \<open>The members of a block that are printed, in their order.\<close>

definition printed_members :: "block \<Rightarrow> member list" where
  "printed_members b = filter (\<lambda>m. member_value b m \<noteq> None) (members b)"

text \<open>
  \<^verbatim>\<open>isValidChain\<close>. Reading element 0 of an empty array gives \<^verbatim>\<open>undefined\<close>, and
  \<^verbatim>\<open>JSON.stringify(undefined)\<close> is \<^verbatim>\<open>undefined\<close>, which differs from every string: the
  empty sequence is rejected by the first test. The \<^verbatim>\<open>for\<close> loop is the function
  \<open>isValidChain_loop\<close> of the array, \<^verbatim>\<open>tempBlocks\<close> and \<^verbatim>\<open>i\<close>.
\<close>

function isValidChain_loop :: "block list \<Rightarrow> block list \<Rightarrow> nat \<Rightarrow> bool" where
  "isValidChain_loop blockchainToValidate tempBlocks i =
     (if i < length blockchainToValidate then
        (if isValidNewBlock (blockchainToValidate ! i) (tempBlocks ! (i - 1))
         then isValidChain_loop blockchainToValidate
                (tempBlocks @ [blockchainToValidate ! i]) (i + 1)
         else False)
      else True)"
  by pat_completeness auto
termination
  by (relation "measure (\<lambda>(bs, tmp, i). length bs - i)") auto

declare isValidChain_loop.simps [simp del]

definition isValidChain :: "block list \<Rightarrow> bool" where
  "isValidChain blockchainToValidate =
     (case blockchainToValidate of
        [] \<Rightarrow> False
      | first # rest \<Rightarrow>
          if JSON_stringify_block first \<noteq> JSON_stringify_block getGenesisBlock then False
          else isValidChain_loop blockchainToValidate [first] 1)"

section \<open>The ledger: the chain in memory and the document store\<close>

text \<open>
  The global \<^verbatim>\<open>blockchain\<close> and the documents held by the store \<^verbatim>\<open>db\<close>. The request
  handlers run only after \<^verbatim>\<open>startup\<close> has assigned \<^verbatim>\<open>blockchain\<close>, since
  \<^verbatim>\<open>app.listen\<close> is called right after the assignment.
\<close>

record ledger =
  blockchain :: "block list"
  db :: "block list"

datatype js_error = TypeError

text \<open>
  \<^verbatim>\<open>getLatestBlock\<close>: \<^verbatim>\<open>blockchain[blockchain.length - 1]\<close>, which is \<^verbatim>\<open>undefined\<close>
  (\<open>None\<close>) for the empty array.
\<close>

definition getLatestBlock :: "ledger \<Rightarrow> block option" where
  "getLatestBlock st =
     (if blockchain st = [] then None
      else Some (blockchain st ! (length (blockchain st) - 1)))"

text \<open>
  \<^verbatim>\<open>generateNextBlock\<close>. The promise is rejected with a \<^verbatim>\<open>TypeError\<close> when there is no
  latest block to read \<^verbatim>\<open>index\<close> from. \<open>now\<close> is the clock reading
  \<^verbatim>\<open>new Date().getTime()\<close> in milliseconds, so that the timestamp
  \<^verbatim>\<open>new Date().getTime() / 1000\<close> is \<open>Milli now\<close>.
\<close>

definition generateNextBlock :: "int \<Rightarrow> jsvalue \<Rightarrow> ledger \<Rightarrow> js_error + block" where
  "generateNextBlock now blockData st =
     (case getLatestBlock st of
        None \<Rightarrow> Inl TypeError
      | Some previousBlock \<Rightarrow>
          (let nextIndex = Number_add (index previousBlock) 1;
               nextTimestamp = Milli now;
               nextHash = calculateHash nextIndex (hash previousBlock) nextTimestamp blockData;
               newBlock = Block nextIndex (hash previousBlock) nextTimestamp blockData nextHash
           in Inr newBlock))"

text \<open>\<^verbatim>\<open>addBlock\<close>: the block is pushed only if it is a valid successor of the latest one.\<close>

definition addBlock :: "block \<Rightarrow> ledger \<Rightarrow> js_error + ledger" where
  "addBlock newBlock st =
     (case getLatestBlock st of
        None \<Rightarrow> Inl TypeError
      | Some latest \<Rightarrow>
          if isValidNewBlock newBlock latest
          then Inr (st\<lparr>blockchain := blockchain st @ [newBlock]\<rparr>)
          else Inr st)"

text \<open>
  \<^verbatim>\<open>insertBlock\<close>: \<^verbatim>\<open>db.post(block)\<close>. When the store accepts the document it holds one
  more; when it refuses, the error is written to the console and nothing else happens.
\<close>

definition insertBlock :: "bool \<Rightarrow> block \<Rightarrow> ledger \<Rightarrow> ledger" where
  "insertBlock post_ok b st = (if post_ok then st\<lparr>db := db st @ [b]\<rparr> else st)"

text \<open>
  \<^verbatim>\<open>replaceChain\<close>. The function has no \<^verbatim>\<open>return\<close> statement, so a call evaluates to
  \<^verbatim>\<open>undefined\<close>; the first component is that value, the second the ledger afterwards.
\<close>

definition replaceChain :: "block list \<Rightarrow> ledger \<Rightarrow> jsvalue \<times> ledger" where
  "replaceChain newBlocks st =
     (if isValidChain newBlocks \<and> length newBlocks > length (blockchain st)
      then (JUndefined, st\<lparr>blockchain := newBlocks\<rparr>)
      else (JUndefined, st))"

text \<open>
  \<^verbatim>\<open>startup\<close>. \<^verbatim>\<open>db.createIndex\<close> only writes to the console. \<^verbatim>\<open>db.find\<close> selects the
  documents whose \<^verbatim>\<open>index\<close> is at least 0; when it resolves, its \<^verbatim>\<open>docs\<close> become
  \<^verbatim>\<open>blockchain\<close> and the server starts listening. When it rejects, the error is written
  to the console, \<^verbatim>\<open>blockchain\<close> is never assigned and the server never listens: there is
  no ledger (\<open>None\<close>).
\<close>

definition db_find :: "block list \<Rightarrow> block list" where
  "db_find docs = filter (\<lambda>doc. 0 \<le> index doc) docs"

definition startup :: "bool \<Rightarrow> block list \<Rightarrow> ledger option" where
  "startup find_ok store =
     (if find_ok then Some \<lparr>blockchain = db_find store, db = store\<rparr> else None)"

text \<open>
  The route \<^verbatim>\<open>POST /mineBlock\<close>. A response is the status code and the block sent as JSON
  (\<^verbatim>\<open>res.json\<close> answers with status 200); \<open>None\<close> is a request that gets no answer,
  which is what happens when the promise chain ends in \<^verbatim>\<open>catch\<close>, where the error is only
  written to the console. \<open>mineBlock_then\<close> is the function passed to \<^verbatim>\<open>then\<close>.
\<close>

record response =
  status :: nat
  body :: block

definition res_json :: "block \<Rightarrow> response" where
  "res_json b = \<lparr>status = 200, body = b\<rparr>"

definition mineBlock_then :: "bool \<Rightarrow> block \<Rightarrow> ledger \<Rightarrow> ledger \<times> response option" where
  "mineBlock_then post_ok newBlock st =
     (case addBlock newBlock st of
        Inl err \<Rightarrow> (st, None)
      | Inr st' \<Rightarrow> (insertBlock post_ok newBlock st', Some (res_json newBlock)))"

definition mineBlock :: "int \<Rightarrow> bool \<Rightarrow> jsvalue \<Rightarrow> ledger \<Rightarrow> ledger \<times> response option" where
  "mineBlock now post_ok blockData st =
     (case generateNextBlock now blockData st of
        Inl err \<Rightarrow> (st, None)
      | Inr newBlock \<Rightarrow> mineBlock_then post_ok newBlock st)"



text \<open>
  The route \<^verbatim>\<open>POST /generategenesis\<close>: the genesis block is handed to the store and sent
  back; the chain in memory is not touched.
\<close>

definition generategenesis :: "bool \<Rightarrow> ledger \<Rightarrow> ledger \<times> response option" where
  "generategenesis post_ok st =
     (insertBlock post_ok getGenesisBlock st, Some (res_json getGenesisBlock))"

section \<open>Example values\<close>

text \<open>
  A ledger that holds the genesis block only, the block mined on it with the payload
  \<^verbatim>\<open>"hello"\<close> at clock reading 1700000000123, and a block that is no successor of the
  genesis block.
\<close>

definition genesis_ledger :: ledger where
  "genesis_ledger = \<lparr>blockchain = [getGenesisBlock], db = [getGenesisBlock]\<rparr>"

definition hello_block :: block where
  "hello_block =
     Block 1 (hash getGenesisBlock) (Milli 1700000000123) (JStr ''hello'')
       (calculateHash 1 (hash getGenesisBlock) (Milli 1700000000123) (JStr ''hello''))"

definition stray_block :: block where
  "stray_block = Block 5 ''0'' (whole 1700000000) (JStr ''stray'') ''00''"

text \<open>
  A block mined on the genesis block whose payload is the object \<^verbatim>\<open>{"amount": 1}\<close>, and
  the same block with the payload replaced by \<^verbatim>\<open>{"amount": 1000}\<close>.
\<close>

definition payment_block :: block where
  "payment_block =
     Block 1 (hash getGenesisBlock) (whole 1700000000) (JObj [(''amount'', JNum (whole 1))])
       (calculateHash 1 (hash getGenesisBlock) (whole 1700000000)
          (JObj [(''amount'', JNum (whole 1))]))"

definition altered_payment_block :: block where
  "altered_payment_block = payment_block\<lparr>data := JObj [(''amount'', JNum (whole 1000))]\<rparr>"

text \<open>
  The genesis block as the store returns it: the same five values, the members in the
  order of the query's \<^verbatim>\<open>fields\<close>.
\<close>

definition stored_genesis :: block where
  "stored_genesis = getGenesisBlock\<lparr>members := stored_order\<rparr>"

text \<open>
  A block with index \<open>2\<^sup>5\<^sup>3\<close> = 9007199254740992, and the block that
  \<^verbatim>\<open>generateNextBlock\<close> builds on it with the payload \<^verbatim>\<open>"next"\<close> at clock reading
  1700000000123: the sum \<open>2\<^sup>5\<^sup>3 + 1\<close> is no double and is rounded to \<open>2\<^sup>5\<^sup>3\<close>.
\<close>

definition high_block :: block where
  "high_block = Block 9007199254740992 ''0'' (whole 1700000000) (JStr ''high'') ''00''"

definition same_index_block :: block where
  "same_index_block =
     Block 9007199254740992 (hash high_block) (Milli 1700000000123) (JStr ''next'')
       (calculateHash 9007199254740992 (hash high_block) (Milli 1700000000123)
          (JStr ''next''))"

section \<open>The digest is 128 hexadecimal digits\<close>

lemma sha_hex_length: "length (sha_hex st) = 128"
  by (induction st rule: sha_hex.induct) (simp add: hex64_def)

lemma SHA512_length: "length (SHA512 s) = 128"
  by (simp add: SHA512_def sha_hex_length)

lemma calculateHash_length: "length (calculateHash idx prev ts dat) = 128"
  by (simp add: calculateHash_def SHA512_length)

section \<open>String forms of numbers\<close>

lemma digit_char_eq_iff: "digit_char a = digit_char b \<longleftrightarrow> a mod 10 = b mod 10"
proof -
  have d: "distinct ''0123456789''" by simp
  have "a mod 10 < length ''0123456789''" "b mod 10 < length ''0123456789''" by simp_all
  with d show ?thesis
    unfolding digit_char_def by (rule nth_eq_iff_index_eq)
qed

lemma digit_char_in: "digit_char a \<in> set ''0123456789''"
  unfolding digit_char_def by (rule nth_mem) simp

lemma digits_nonempty: "digits n \<noteq> []"
  by (subst digits.simps) simp

lemma set_digits: "set (digits n) \<subseteq> set ''0123456789''"
proof (induction n rule: digits.induct)
  case (1 n)
  show ?case
  proof (cases "n < 10")
    case True
    then have "digits n = [digit_char n]" by (subst digits.simps) simp
    then show ?thesis using digit_char_in [of n] by simp
  next
    case False
    then have "digits n = digits (n div 10) @ [digit_char (n mod 10)]"
      by (subst digits.simps) simp
    then show ?thesis using "1.IH" [OF False] digit_char_in [of "n mod 10"] by simp
  qed
qed

lemma digits_inj: "digits n = digits m \<Longrightarrow> n = m"
proof (induction n arbitrary: m rule: digits.induct)
  case (1 n)
  show ?case
  proof (cases "n < 10")
    case True
    then have n: "digits n = [digit_char n]" by (subst digits.simps) simp
    have "m < 10"
    proof (rule ccontr)
      assume "\<not> m < 10"
      then have "digits m = digits (m div 10) @ [digit_char (m mod 10)]"
        by (subst digits.simps) simp
      with n "1.prems" digits_nonempty [of "m div 10"] show False by simp
    qed
    then have "digits m = [digit_char m]" by (subst digits.simps) simp
    with n "1.prems" have "n mod 10 = m mod 10" by (simp add: digit_char_eq_iff)
    with True \<open>m < 10\<close> show ?thesis by simp
  next
    case False
    then have n: "digits n = digits (n div 10) @ [digit_char (n mod 10)]"
      by (subst digits.simps) simp
    have "\<not> m < 10"
    proof
      assume "m < 10"
      then have "digits m = [digit_char m]" by (subst digits.simps) simp
      with n "1.prems" digits_nonempty [of "n div 10"] show False by simp
    qed
    then have m: "digits m = digits (m div 10) @ [digit_char (m mod 10)]"
      by (subst digits.simps) simp
    from n m "1.prems" have "digits (n div 10) = digits (m div 10)"
      and "n mod 10 = m mod 10" by (simp_all add: digit_char_eq_iff)
    with "1.IH" [OF False] have "n div 10 = m div 10" and "n mod 10 = m mod 10" by simp_all
    then show ?thesis by (metis div_mult_mod_eq)
  qed
qed

lemma digits_plain:
  assumes "c \<in> set (digits n)"
  shows "c \<noteq> CHR '',''" "c \<noteq> CHR ''.''" "c \<noteq> CHR ''-''" "c \<noteq> CHR 0x22"
  using assms set_digits [of n] by auto

lemma int_toString_plain:
  assumes "c \<in> set (int_toString i)"
  shows "c \<noteq> CHR '',''" "c \<noteq> CHR 0x22"
proof -
  from assms have "c = CHR ''-'' \<or> c \<in> set (digits (nat \<bar>i\<bar>))"
    unfolding int_toString_def by (cases "i < 0") simp_all
  then show "c \<noteq> CHR '',''" "c \<noteq> CHR 0x22" using digits_plain [of c] by auto
qed

lemma hd_digits: "hd (digits n) \<in> set ''0123456789''"
  using set_digits [of n] digits_nonempty [of n] by (cases "digits n") auto

lemma int_toString_inj: "int_toString i = int_toString j \<Longrightarrow> i = j"
proof -
  assume eq: "int_toString i = int_toString j"
  have hdi: "hd (int_toString k) = CHR ''-'' \<longleftrightarrow> k < 0" for k
    using hd_digits [of "nat \<bar>k\<bar>"] digits_nonempty [of "nat \<bar>k\<bar>"]
    unfolding int_toString_def by (cases "k < 0") auto
  from eq hdi [of i] hdi [of j] have sgn: "i < 0 \<longleftrightarrow> j < 0" by simp
  with eq have "digits (nat \<bar>i\<bar>) = digits (nat \<bar>j\<bar>)"
    unfolding int_toString_def by (cases "i < 0") auto
  then have "nat \<bar>i\<bar> = nat \<bar>j\<bar>" by (rule digits_inj)
  with sgn show "i = j" by arith
qed

lemma fraction_cases: "fraction r = [] \<or> (\<exists>ds. fraction r = CHR ''.'' # ds)"
  by (simp add: fraction_def)

lemma fraction_chars: "set (fraction r) \<subseteq> set ''.0123456789''"
  using digit_char_in [of "r div 100"] digit_char_in [of "r div 10"] digit_char_in [of r]
  by (auto simp: fraction_def)

lemma fraction_length:
  "length (fraction q) =
     (if q = 0 then 0 else if q mod 100 = 0 then 2 else if q mod 10 = 0 then 3 else 4)"
  by (simp add: fraction_def)

lemma three_digits: "100 * (r div 100) + 10 * (r div 10 mod 10) + r mod 10 = (r::nat)"
proof -
  have d: "r div 100 = r div 10 div 10" by (simp add: div_mult2_eq)
  have e2: "10 * (r div 10 div 10) + r div 10 mod 10 = r div 10" by (rule mult_div_mod_eq)
  have e1: "10 * (r div 10) + r mod 10 = r" by (rule mult_div_mod_eq)
  have "100 * (r div 100) + 10 * (r div 10 mod 10)
      = 10 * (10 * (r div 10 div 10) + r div 10 mod 10)"
    unfolding d by (simp only: distrib_left mult.assoc [symmetric])
  then show ?thesis by (simp only: e2 e1)
qed

lemma hundreds_zero:
  assumes "(r::nat) mod 100 = 0"
  shows "r div 10 mod 10 = 0" and "r mod 10 = 0"
proof -
  from assms have "100 dvd r" by (simp add: dvd_eq_mod_eq_0)
  then obtain q where q: "r = 100 * q" by (elim dvdE)
  have "r div 10 = 10 * q" unfolding q by simp
  then show "r div 10 mod 10 = 0" by simp
  have "r = 10 * (10 * q)" unfolding q by simp
  then show "r mod 10 = 0" by simp
qed

lemma fraction_inj:
  assumes eq: "fraction r = fraction s" and r: "r < 1000" and s: "s < 1000"
  shows "r = s"
proof -
  from eq have l: "length (fraction r) = length (fraction s)" by simp
  have z: "r = 0 \<longleftrightarrow> s = 0"
    using l unfolding fraction_length by (simp split: if_splits)
  show ?thesis
  proof (cases "r = 0")
    case True
    with z show ?thesis by simp
  next
    case nz: False
    with z have snz: "s \<noteq> 0" by simp
    have h: "r mod 100 = 0 \<longleftrightarrow> s mod 100 = 0"
      using l nz snz unfolding fraction_length by (simp split: if_splits)
    have "r div 100 mod 10 = s div 100 mod 10"
      using eq nz snz h by (simp add: fraction_def digit_char_eq_iff split: if_splits)
    moreover have "r div 100 < 10" "s div 100 < 10" using r s by simp_all
    ultimately have a: "r div 100 = s div 100" by simp
    have bc: "r div 10 mod 10 = s div 10 mod 10 \<and> r mod 10 = s mod 10"
    proof (cases "r mod 100 = 0")
      case True
      with h have "s mod 100 = 0" by simp
      with True show ?thesis by (simp add: hundreds_zero)
    next
      case nh: False
      with h have snh: "s mod 100 \<noteq> 0" by simp
      have t: "r mod 10 = 0 \<longleftrightarrow> s mod 10 = 0"
        using l nz snz nh snh unfolding fraction_length by (simp split: if_splits)
      have b: "r div 10 mod 10 = s div 10 mod 10"
        using eq nz snz nh snh t by (simp add: fraction_def digit_char_eq_iff split: if_splits)
      have "r mod 10 = s mod 10"
      proof (cases "r mod 10 = 0")
        case True
        with t show ?thesis by simp
      next
        case nt: False
        with t have "s mod 10 \<noteq> 0" by simp
        with eq nz snz nh snh nt show ?thesis by (simp add: fraction_def digit_char_eq_iff)
      qed
      with b show ?thesis by simp
    qed
    have "r = 100 * (r div 100) + 10 * (r div 10 mod 10) + r mod 10"
      by (simp only: three_digits)
    also have "\<dots> = 100 * (s div 100) + 10 * (s div 10 mod 10) + s mod 10"
      using a bc by simp
    also have "\<dots> = s" by (simp only: three_digits)
    finally show ?thesis .
  qed
qed

lemma split_at_delim:
  "c \<notin> set a \<Longrightarrow> c \<notin> set a' \<Longrightarrow> a @ c # r = a' @ c # r' \<Longrightarrow> a = a' \<and> r = r'"
proof (induction a arbitrary: a')
  case Nil
  then show ?case by (cases a') auto
next
  case (Cons x a)
  then show ?case by (cases a') auto
qed

lemma fraction_plain:
  assumes "c \<in> set (fraction r)"
  shows "c \<noteq> CHR '',''" "c \<noteq> CHR 0x22"
proof -
  have "set (fraction r) \<subseteq> set ''.0123456789''" by (rule fraction_chars)
  with assms have "c \<in> set ''.0123456789''" by (rule rev_subsetD)
  then show "c \<noteq> CHR '',''" "c \<noteq> CHR 0x22" by auto
qed

lemma Number_toString_plain:
  assumes "c \<in> set (Number_toString n)"
  shows "c \<noteq> CHR '',''" "c \<noteq> CHR 0x22"
proof -
  obtain k where n: "n = Milli k" by (cases n)
  from assms have "c = CHR ''-'' \<or> c \<in> set (digits (nat \<bar>k\<bar> div 1000))
      \<or> c \<in> set (fraction (nat \<bar>k\<bar> mod 1000))"
    unfolding n by (cases "k < 0") auto
  then show "c \<noteq> CHR '',''" "c \<noteq> CHR 0x22"
    using digits_plain [of c] fraction_plain [of c] by auto
qed

lemma Number_toString_nonempty: "Number_toString n \<noteq> []"
  by (cases n) (simp add: digits_nonempty)

lemma digits_fraction_eq:
  assumes "digits a @ fraction r = digits b @ fraction s"
  shows "digits a = digits b \<and> fraction r = fraction s"
proof -
  have nd: "CHR ''.'' \<notin> set (digits m)" for m using digits_plain(2) [of "CHR ''.''" m] by auto
  from fraction_cases [of r] fraction_cases [of s] show ?thesis
  proof (elim disjE exE)
    assume "fraction r = []" "fraction s = []"
    with assms show ?thesis by simp
  next
    fix ds assume "fraction r = []" "fraction s = CHR ''.'' # ds"
    with assms have "digits a = digits b @ CHR ''.'' # ds" by simp
    then have "CHR ''.'' \<in> set (digits a)" by simp
    with nd show ?thesis by simp
  next
    fix ds assume "fraction r = CHR ''.'' # ds" "fraction s = []"
    with assms have "digits b = digits a @ CHR ''.'' # ds" by simp
    then have "CHR ''.'' \<in> set (digits b)" by simp
    with nd show ?thesis by simp
  next
    fix ds es assume f: "fraction r = CHR ''.'' # ds" "fraction s = CHR ''.'' # es"
    with assms have "digits a @ CHR ''.'' # ds = digits b @ CHR ''.'' # es" by simp
    with nd [of a] nd [of b] have "digits a = digits b \<and> ds = es" by (rule split_at_delim)
    with f show ?thesis by simp
  qed
qed

lemma Number_toString_inj: "Number_toString m = Number_toString n \<Longrightarrow> m = n"
proof -
  assume eq: "Number_toString m = Number_toString n"
  obtain k where m: "m = Milli k" by (cases m)
  obtain l where n: "n = Milli l" by (cases n)
  have hdn: "hd (Number_toString (Milli j)) = CHR ''-'' \<longleftrightarrow> j < 0" for j
    using hd_digits [of "nat \<bar>j\<bar> div 1000"] digits_nonempty [of "nat \<bar>j\<bar> div 1000"]
    by (cases "j < 0") auto
  from eq hdn [of k] hdn [of l] have sgn: "k < 0 \<longleftrightarrow> l < 0" unfolding m n by simp
  with eq have "digits (nat \<bar>k\<bar> div 1000) @ fraction (nat \<bar>k\<bar> mod 1000)
      = digits (nat \<bar>l\<bar> div 1000) @ fraction (nat \<bar>l\<bar> mod 1000)"
    unfolding m n by (cases "k < 0") auto
  then have "digits (nat \<bar>k\<bar> div 1000) = digits (nat \<bar>l\<bar> div 1000)"
    and "fraction (nat \<bar>k\<bar> mod 1000) = fraction (nat \<bar>l\<bar> mod 1000)"
    using digits_fraction_eq by blast+
  then have "nat \<bar>k\<bar> div 1000 = nat \<bar>l\<bar> div 1000" and "nat \<bar>k\<bar> mod 1000 = nat \<bar>l\<bar> mod 1000"
    by (auto intro: digits_inj fraction_inj)
  then have "nat \<bar>k\<bar> = nat \<bar>l\<bar>" by (metis div_mult_mod_eq)
  with sgn have "k = l" by arith
  then show "m = n" unfolding m n by simp
qed

section \<open>Sums of numbers\<close>

lemma bit_length_le: "a < 2 ^ k \<Longrightarrow> bit_length a \<le> k"
proof (induction k arbitrary: a)
  case 0
  then show ?case by (simp add: bit_length.simps)
next
  case (Suc k)
  show ?case
  proof (cases "a = 0")
    case True
    then show ?thesis by (simp add: bit_length.simps)
  next
    case False
    from Suc.prems have "a div 2 < 2 ^ k" by simp
    then have "bit_length (a div 2) \<le> k" by (rule Suc.IH)
    with False show ?thesis by (subst bit_length.simps) simp
  qed
qed

lemma round_to_double_small:
  assumes "\<bar>n\<bar> < 2 ^ 53"
  shows "round_to_double n = n"
proof -
  from assms have "nat \<bar>n\<bar> < 2 ^ 53" by (simp add: nat_less_iff)
  then have "bit_length (nat \<bar>n\<bar>) - 53 = 0" using bit_length_le [of "nat \<bar>n\<bar>" 53] by simp
  then have "round_to_double n = sgn n * int (nat \<bar>n\<bar>)"
    by (simp add: round_to_double_def Let_def)
  then show ?thesis by (simp add: mult_sgn_abs)
qed

lemma bit_length_high:
  "bit_length 9007199254740992 = 54" "bit_length 9007199254740993 = 54"
  by (simp_all add: bit_length.simps)

lemma round_to_double_high:
  "round_to_double 9007199254740992 = 9007199254740992"
  "round_to_double (- 9007199254740992) = - 9007199254740992"
  "round_to_double 9007199254740993 = 9007199254740992"
  by (simp_all add: round_to_double_def Let_def bit_length_high)

lemma round_to_double_exact:
  assumes "\<bar>n\<bar> \<le> 2 ^ 53"
  shows "round_to_double n = n"
proof -
  have e: "(2::int) ^ 53 = 9007199254740992" by simp
  from assms [unfolded e]
  have "\<bar>n\<bar> < 9007199254740992 \<or> n = 9007199254740992 \<or> n = - 9007199254740992"
    by arith
  then show ?thesis
    using round_to_double_small [of n, unfolded e] by (auto simp: round_to_double_high)
qed

lemma Number_add_exact: "\<bar>x + y\<bar> \<le> 2 ^ 53 \<Longrightarrow> Number_add x y = x + y"
  by (simp add: Number_add_def round_to_double_exact)

lemma Number_add_high: "Number_add 9007199254740992 1 = 9007199254740992"
  by (simp add: Number_add_def round_to_double_high)

section \<open>JSON text of a block\<close>

lemma JSON_quote_char_cases:
  "(JSON_quote_char c = [c] \<and> c \<noteq> CHR 0x22 \<and> c \<noteq> CHR 0x5C)
   \<or> (\<exists>ys. JSON_quote_char c = CHR 0x5C # ys)"
  by (simp add: JSON_quote_char_def)

text \<open>
  A quoted string ends at its first quote that is not escaped: if the text after an
  opening quote starts with the plain characters \<open>t\<close> and a quote, the string is \<open>t\<close>.
\<close>

lemma quoted_eq:
  assumes "\<And>c. c \<in> set t \<Longrightarrow> c \<noteq> CHR 0x22 \<and> c \<noteq> CHR 0x5C"
    and "concat (map JSON_quote_char s) @ CHR 0x22 # r = t @ CHR 0x22 # r'"
  shows "s = t \<and> r = r'"
  using assms
proof (induction t arbitrary: s)
  case Nil
  show ?case
  proof (cases s)
    case Nil
    with Nil.prems(2) show ?thesis by simp
  next
    case (Cons c cs)
    with Nil.prems(2) JSON_quote_char_cases [of c] show ?thesis by auto
  qed
next
  case (Cons x t)
  from Cons.prems(1) have x: "x \<noteq> CHR 0x22" "x \<noteq> CHR 0x5C" by simp_all
  show ?case
  proof (cases s)
    case Nil
    with Cons.prems(2) x show ?thesis by simp
  next
    case s: (Cons c cs)
    from JSON_quote_char_cases [of c] show ?thesis
    proof (elim disjE conjE exE)
      assume c: "JSON_quote_char c = [c]"
      with Cons.prems(2) s have "c = x"
        and "concat (map JSON_quote_char cs) @ CHR 0x22 # r = t @ CHR 0x22 # r'" by simp_all
      moreover have "\<And>c. c \<in> set t \<Longrightarrow> c \<noteq> CHR 0x22 \<and> c \<noteq> CHR 0x5C"
        using Cons.prems(1) by simp
      ultimately show ?thesis using Cons.IH [of cs] s by simp
    next
      fix ys assume "JSON_quote_char c = CHR 0x5C # ys"
      with Cons.prems(2) s x show ?thesis by simp
    qed
  qed
qed

lemma JSON_quote_eq:
  assumes "\<And>c. c \<in> set t \<Longrightarrow> c \<noteq> CHR 0x22 \<and> c \<noteq> CHR 0x5C"
    and "JSON_quote s @ r = CHR 0x22 # t @ CHR 0x22 # r'"
  shows "s = t \<and> r = r'"
proof -
  from assms(2) have "concat (map JSON_quote_char s) @ CHR 0x22 # r = t @ CHR 0x22 # r'"
    by (simp add: JSON_quote_def)
  with assms(1) show ?thesis by (rule quoted_eq)
qed

lemma int_toString_delim:
  assumes "int_toString i @ CHR '','' # r = int_toString j @ CHR '','' # r'"
  shows "i = j \<and> r = r'"
proof -
  have "CHR '','' \<notin> set (int_toString k)" for k using int_toString_plain(1) by blast
  then have "int_toString i = int_toString j \<and> r = r'" using assms by (intro split_at_delim)
  then show ?thesis by (auto dest: int_toString_inj)
qed

lemma Number_toString_delim:
  assumes "Number_toString m @ CHR '','' # r = Number_toString n @ CHR '','' # r'"
  shows "m = n \<and> r = r'"
proof -
  have "CHR '','' \<notin> set (Number_toString k)" for k using Number_toString_plain(1) by blast
  then have "Number_toString m = Number_toString n \<and> r = r'"
    using assms by (intro split_at_delim)
  then show ?thesis by (auto dest: Number_toString_inj)
qed

lemma JSON_quote_plain:
  assumes "\<forall>c\<in>set t. JSON_quote_char c = [c]"
  shows "JSON_quote t = CHR 0x22 # t @ [CHR 0x22]"
proof -
  from assms have "concat (map JSON_quote_char t) = t" by (induction t) simp_all
  then show ?thesis by (simp add: JSON_quote_def)
qed

lemma JSON_quote_inj_plain:
  assumes plain: "\<forall>c\<in>set t. JSON_quote_char c = [c]"
    and eq: "JSON_quote s @ r = JSON_quote t @ r'"
  shows "s = t \<and> r = r'"
proof -
  have "c \<noteq> CHR 0x22 \<and> c \<noteq> CHR 0x5C" if "c \<in> set t" for c
    using plain that JSON_quote_char_cases [of c] by (auto simp: JSON_quote_char_def)
  moreover from eq have "JSON_quote s @ r = CHR 0x22 # t @ CHR 0x22 # r'"
    by (simp add: JSON_quote_plain [OF plain])
  ultimately show ?thesis by (rule JSON_quote_eq)
qed

lemma JSON_stringify_starts_with_quote:
  assumes "JSON_stringify v = Some sd" and "sd @ r = JSON_quote t @ r'"
  shows "\<exists>s. v = JStr s"
proof (cases v)
  case (JNum n)
  obtain x xs where nx: "Number_toString n = x # xs"
    using Number_toString_nonempty [of n] by (cases "Number_toString n") auto
  then have "x \<in> set (Number_toString n)" by simp
  then have "x \<noteq> CHR 0x22" by (rule Number_toString_plain(2))
  moreover from assms JNum nx have "x = CHR 0x22" by (auto simp: JSON_quote_def)
  ultimately show ?thesis by simp
qed (use assms in \<open>auto simp: JSON_quote_def split: if_splits\<close>)

lemma genesis_fields:
  "index getGenesisBlock = 0"
  "previousHash getGenesisBlock = ''0''"
  "timestamp getGenesisBlock = whole 1465154705"
  "data getGenesisBlock = JStr ''JSChain genesis block''"
  "hash getGenesisBlock = ''816534932c2b7154836da6afc367695e6337db8a921823784c14378abed4f7d7''"
  "members getGenesisBlock = constructor_order"
  by (simp_all add: getGenesisBlock_def Block_def)

lemma plain_names:
  "\<forall>c\<in>set ''0''. JSON_quote_char c = [c]"
  "\<forall>c\<in>set ''JSChain genesis block''. JSON_quote_char c = [c]"
  "\<forall>c\<in>set ''816534932c2b7154836da6afc367695e6337db8a921823784c14378abed4f7d7''.
      JSON_quote_char c = [c]"
  "\<forall>c\<in>set ''index''. JSON_quote_char c = [c]"
  "\<forall>c\<in>set ''previousHash''. JSON_quote_char c = [c]"
  "\<forall>c\<in>set ''timestamp''. JSON_quote_char c = [c]"
  "\<forall>c\<in>set ''data''. JSON_quote_char c = [c]"
  "\<forall>c\<in>set ''hash''. JSON_quote_char c = [c]"
  by (simp_all add: JSON_quote_char_def)

subsection \<open>The text member by member\<close>

lemma js_join_Cons:
  "js_join sep (x # xs) = (if xs = [] then x else x @ sep @ js_join sep xs)"
  by (cases xs) simp_all

lemma member_text_simps:
  "member_value b m = None \<Longrightarrow> member_text b m = []"
  "member_value b m = Some t \<Longrightarrow> member_text b m = [JSON_quote (member_key m) @ '':'' @ t]"
  by (simp_all add: member_text_def)

lemma more_members_text_join:
  "more_members_text b ms =
     (if concat (map (member_text b) ms) = [] then ''}''
      else '','' @ js_join '','' (concat (map (member_text b) ms)) @ ''}'')"
proof (induction ms)
  case Nil
  show ?case by simp
next
  case (Cons m ms)
  show ?case
  proof (cases "member_value b m")
    case None
    with Cons member_text_simps(1) [OF None] show ?thesis by simp
  next
    case (Some t)
    with Cons member_text_simps(2) [OF Some] show ?thesis by (simp add: js_join_Cons)
  qed
qed

lemma members_text_join:
  "members_text b ms = js_join '','' (concat (map (member_text b) ms)) @ ''}''"
proof (induction ms)
  case Nil
  show ?case by simp
next
  case (Cons m ms)
  show ?case
  proof (cases "member_value b m")
    case None
    with Cons member_text_simps(1) [OF None] show ?thesis by simp
  next
    case (Some t)
    with member_text_simps(2) [OF Some] show ?thesis
      by (simp add: js_join_Cons more_members_text_join)
  qed
qed

lemma JSON_stringify_block_members_text:
  "JSON_stringify_block b = CHR ''{'' # members_text b (members b)"
  by (simp add: JSON_stringify_block_def members_text_join)

lemma more_members_text_cases:
  "more_members_text b ms = ''}'' \<or> (\<exists>r. more_members_text b ms = CHR '','' # r)"
  by (induction ms) (auto split: option.splits)

lemma more_members_text_end:
  "more_members_text b ms = ''}'' \<Longrightarrow> \<forall>x\<in>set ms. member_value b x = None"
  by (induction ms) (auto split: option.splits)

lemma more_members_text_step:
  assumes plain: "\<forall>c\<in>set k. JSON_quote_char c = [c]"
    and eq: "more_members_text b ms = CHR '','' # JSON_quote k @ CHR '':'' # R"
  shows "\<exists>pre m ms' t. ms = pre @ m # ms' \<and> (\<forall>x\<in>set pre. member_value b x = None)
     \<and> member_value b m = Some t \<and> member_key m = k \<and> t @ more_members_text b ms' = R"
  using eq
proof (induction ms)
  case Nil
  then show ?case by simp
next
  case (Cons m ms)
  show ?case
  proof (cases "member_value b m")
    case None
    with Cons.prems have "more_members_text b ms = CHR '','' # JSON_quote k @ CHR '':'' # R"
      by simp
    from Cons.IH [OF this] obtain pre m' ms' t
      where "ms = pre @ m' # ms'" "\<forall>x\<in>set pre. member_value b x = None"
        "member_value b m' = Some t" "member_key m' = k" "t @ more_members_text b ms' = R"
      by blast
    with None have "m # ms = (m # pre) @ m' # ms' \<and> (\<forall>x\<in>set (m # pre). member_value b x = None)
     \<and> member_value b m' = Some t \<and> member_key m' = k \<and> t @ more_members_text b ms' = R"
      by simp
    then show ?thesis by blast
  next
    case (Some t)
    with Cons.prems have "JSON_quote (member_key m) @ (CHR '':'' # t @ more_members_text b ms)
        = JSON_quote k @ (CHR '':'' # R)" by simp
    from JSON_quote_inj_plain [OF plain this]
    have "member_key m = k" and "t @ more_members_text b ms = R" by simp_all
    with Some have "m # ms = [] @ m # ms \<and> (\<forall>x\<in>set []. member_value b x = None)
     \<and> member_value b m = Some t \<and> member_key m = k \<and> t @ more_members_text b ms = R"
      by simp
    then show ?thesis by blast
  qed
qed

lemma members_text_step:
  assumes plain: "\<forall>c\<in>set k. JSON_quote_char c = [c]"
    and eq: "members_text b ms = JSON_quote k @ CHR '':'' # R"
  shows "\<exists>pre m ms' t. ms = pre @ m # ms' \<and> (\<forall>x\<in>set pre. member_value b x = None)
     \<and> member_value b m = Some t \<and> member_key m = k \<and> t @ more_members_text b ms' = R"
  using eq
proof (induction ms)
  case Nil
  then show ?case by (simp add: JSON_quote_def)
next
  case (Cons m ms)
  show ?case
  proof (cases "member_value b m")
    case None
    with Cons.prems have "members_text b ms = JSON_quote k @ CHR '':'' # R" by simp
    from Cons.IH [OF this] obtain pre m' ms' t
      where "ms = pre @ m' # ms'" "\<forall>x\<in>set pre. member_value b x = None"
        "member_value b m' = Some t" "member_key m' = k" "t @ more_members_text b ms' = R"
      by blast
    with None have "m # ms = (m # pre) @ m' # ms' \<and> (\<forall>x\<in>set (m # pre). member_value b x = None)
     \<and> member_value b m' = Some t \<and> member_key m' = k \<and> t @ more_members_text b ms' = R"
      by simp
    then show ?thesis by blast
  next
    case (Some t)
    with Cons.prems have "JSON_quote (member_key m) @ (CHR '':'' # t @ more_members_text b ms)
        = JSON_quote k @ (CHR '':'' # R)" by simp
    from JSON_quote_inj_plain [OF plain this]
    have "member_key m = k" and "t @ more_members_text b ms = R" by simp_all
    with Some have "m # ms = [] @ m # ms \<and> (\<forall>x\<in>set []. member_value b x = None)
     \<and> member_value b m = Some t \<and> member_key m = k \<and> t @ more_members_text b ms = R"
      by simp
    then show ?thesis by blast
  qed
qed

text \<open>A printed member under the name of a field is that field.\<close>

lemma member_of_key:
  assumes "member_value b m = Some t"
  shows "member_key m = ''index'' \<Longrightarrow> m = M_index"
    and "member_key m = ''previousHash'' \<Longrightarrow> m = M_previousHash"
    and "member_key m = ''timestamp'' \<Longrightarrow> m = M_timestamp"
    and "member_key m = ''data'' \<Longrightarrow> m = M_data"
    and "member_key m = ''hash'' \<Longrightarrow> m = M_hash"
  using assms by (cases m; simp add: field_names_def)+

subsection \<open>Where a number ends\<close>

lemma split_at_delims:
  assumes "x \<notin> set a" "x \<notin> set a'" "c \<notin> set a" "c \<notin> set a'"
    and "a @ x # r = a' @ c # r'"
  shows "a = a' \<and> x = c \<and> r = r'"
  using assms
proof (induction a arbitrary: a')
  case Nil
  show ?case
  proof (cases a')
    case Nil
    with Nil.prems(5) show ?thesis by simp
  next
    case (Cons z zs)
    with Nil.prems(5) have "x = z" by simp
    with Nil.prems(2) Cons show ?thesis by simp
  qed
next
  case (Cons y a)
  show ?case
  proof (cases a')
    case Nil
    with Cons.prems(5) have "c = y" by simp
    with Cons.prems(3) show ?thesis by simp
  next
    case a': (Cons z zs)
    with Cons.prems(5) have yz: "y = z" and e: "a @ x # r = zs @ c # r'" by simp_all
    from Cons.prems(1-4) a' have "x \<notin> set a" "x \<notin> set zs" "c \<notin> set a" "c \<notin> set zs"
      by simp_all
    from Cons.IH [OF this e] yz a' show ?thesis by simp
  qed
qed

lemma digits_no_brace: "CHR ''}'' \<notin> set (digits n)"
  using set_digits [of n] by auto

lemma int_toString_no_brace: "CHR ''}'' \<notin> set (int_toString i)"
  using digits_no_brace [of "nat \<bar>i\<bar>"] unfolding int_toString_def by (cases "i < 0") simp_all

lemma Number_toString_no_brace: "CHR ''}'' \<notin> set (Number_toString n)"
proof -
  obtain k where n: "n = Milli k" by (cases n)
  have "CHR ''}'' \<notin> set (fraction r)" for r using fraction_chars [of r] by auto
  then show ?thesis
    using digits_no_brace [of "nat \<bar>k\<bar> div 1000"] unfolding n by (cases "k < 0") simp_all
qed

lemma int_toString_tail:
  assumes "int_toString i @ more_members_text b ms = int_toString j @ CHR '','' # R"
  shows "i = j \<and> more_members_text b ms = CHR '','' # R"
proof -
  have c: "CHR '','' \<notin> set (int_toString k)" for k using int_toString_plain(1) by blast
  from more_members_text_cases [of b ms] show ?thesis
  proof (elim disjE exE)
    assume "more_members_text b ms = ''}''"
    with assms have "int_toString i @ CHR ''}'' # [] = int_toString j @ CHR '','' # R" by simp
    from split_at_delims [OF int_toString_no_brace int_toString_no_brace c c this]
    show ?thesis by simp
  next
    fix r assume r: "more_members_text b ms = CHR '','' # r"
    with assms have "int_toString i @ CHR '','' # r = int_toString j @ CHR '','' # R" by simp
    from int_toString_delim [OF this] r show ?thesis by simp
  qed
qed

lemma Number_toString_tail:
  assumes "Number_toString m @ more_members_text b ms = Number_toString n @ CHR '','' # R"
  shows "m = n \<and> more_members_text b ms = CHR '','' # R"
proof -
  have c: "CHR '','' \<notin> set (Number_toString k)" for k using Number_toString_plain(1) by blast
  from more_members_text_cases [of b ms] show ?thesis
  proof (elim disjE exE)
    assume "more_members_text b ms = ''}''"
    with assms
    have "Number_toString m @ CHR ''}'' # [] = Number_toString n @ CHR '','' # R" by simp
    from split_at_delims [OF Number_toString_no_brace Number_toString_no_brace c c this]
    show ?thesis by simp
  next
    fix r assume r: "more_members_text b ms = CHR '','' # r"
    with assms
    have "Number_toString m @ CHR '','' # r = Number_toString n @ CHR '','' # R" by simp
    from Number_toString_delim [OF this] r show ?thesis by simp
  qed
qed

subsection \<open>The text of the genesis block\<close>

lemma no_printed: "\<forall>x\<in>set ms. member_value b x = None
    \<Longrightarrow> filter (\<lambda>m. member_value b m \<noteq> None) ms = []"
  by (induction ms) simp_all

text \<open>
  A block has the JSON text of the genesis block exactly when its printed members are the
  five fields in the order of the constructor and their values are those of the genesis
  block.
\<close>

lemma JSON_stringify_block_genesis:
  "JSON_stringify_block b = JSON_stringify_block getGenesisBlock \<longleftrightarrow>
     printed_members b = constructor_order
     \<and> index b = index getGenesisBlock
     \<and> previousHash b = previousHash getGenesisBlock
     \<and> timestamp b = timestamp getGenesisBlock
     \<and> data b = data getGenesisBlock
     \<and> hash b = hash getGenesisBlock"
proof
  let ?G = getGenesisBlock
  define g5 where "g5 = JSON_quote ''hash'' @ CHR '':'' # JSON_quote (hash ?G) @ ''}''"
  define g4 where "g4 = JSON_quote ''data'' @ CHR '':'' #
      JSON_quote ''JSChain genesis block'' @ CHR '','' # g5"
  define g3 where "g3 = JSON_quote ''timestamp'' @ CHR '':'' #
      Number_toString (timestamp ?G) @ CHR '','' # g4"
  define g2 where "g2 = JSON_quote ''previousHash'' @ CHR '':'' #
      JSON_quote (previousHash ?G) @ CHR '','' # g3"
  have G: "members_text ?G (members ?G)
      = JSON_quote ''index'' @ CHR '':'' # int_toString (index ?G) @ CHR '','' # g2"
    by (simp add: g2_def g3_def g4_def g5_def genesis_fields(4,6) constructor_order_def)
  assume "JSON_stringify_block b = JSON_stringify_block ?G"
  then have "members_text b (members b)
      = JSON_quote ''index'' @ CHR '':'' # int_toString (index ?G) @ CHR '','' # g2"
    by (simp add: JSON_stringify_block_members_text G)
  from members_text_step [OF plain_names(4) this] obtain p1 m1 r1 t1
    where ms: "members b = p1 @ m1 # r1" and p1: "\<forall>x\<in>set p1. member_value b x = None"
      and v1: "member_value b m1 = Some t1" and k1: "member_key m1 = ''index''"
      and e1: "t1 @ more_members_text b r1 = int_toString (index ?G) @ CHR '','' # g2"
    by blast
  from member_of_key(1) [OF v1 k1] have m1: "m1 = M_index" .
  with v1 e1 have "int_toString (index b) @ more_members_text b r1
      = int_toString (index ?G) @ CHR '','' # g2" by auto
  from int_toString_tail [OF this] have i: "index b = index ?G"
    and "more_members_text b r1 = CHR '','' # g2" by simp_all
  then have "more_members_text b r1 = CHR '','' # JSON_quote ''previousHash'' @ CHR '':'' #
      (JSON_quote (previousHash ?G) @ CHR '','' # g3)" by (simp add: g2_def)
  from more_members_text_step [OF plain_names(5) this] obtain p2 m2 r2 t2
    where r1: "r1 = p2 @ m2 # r2" and p2: "\<forall>x\<in>set p2. member_value b x = None"
      and v2: "member_value b m2 = Some t2" and k2: "member_key m2 = ''previousHash''"
      and e2: "t2 @ more_members_text b r2 = JSON_quote (previousHash ?G) @ CHR '','' # g3"
    by blast
  from member_of_key(2) [OF v2 k2] have m2: "m2 = M_previousHash" .
  with v2 e2 have "JSON_quote (previousHash b) @ more_members_text b r2
      = JSON_quote (previousHash ?G) @ CHR '','' # g3" by auto
  moreover have "\<forall>c\<in>set (previousHash ?G). JSON_quote_char c = [c]"
    unfolding genesis_fields by (rule plain_names)
  ultimately have p: "previousHash b = previousHash ?G"
    and "more_members_text b r2 = CHR '','' # g3" using JSON_quote_inj_plain by blast+
  then have "more_members_text b r2 = CHR '','' # JSON_quote ''timestamp'' @ CHR '':'' #
      (Number_toString (timestamp ?G) @ CHR '','' # g4)" by (simp add: g3_def)
  from more_members_text_step [OF plain_names(6) this] obtain p3 m3 r3 t3
    where r2: "r2 = p3 @ m3 # r3" and p3: "\<forall>x\<in>set p3. member_value b x = None"
      and v3: "member_value b m3 = Some t3" and k3: "member_key m3 = ''timestamp''"
      and e3: "t3 @ more_members_text b r3 = Number_toString (timestamp ?G) @ CHR '','' # g4"
    by blast
  from member_of_key(3) [OF v3 k3] have m3: "m3 = M_timestamp" .
  with v3 e3 have "Number_toString (timestamp b) @ more_members_text b r3
      = Number_toString (timestamp ?G) @ CHR '','' # g4" by auto
  from Number_toString_tail [OF this] have t: "timestamp b = timestamp ?G"
    and "more_members_text b r3 = CHR '','' # g4" by simp_all
  then have "more_members_text b r3 = CHR '','' # JSON_quote ''data'' @ CHR '':'' #
      (JSON_quote ''JSChain genesis block'' @ CHR '','' # g5)" by (simp add: g4_def)
  from more_members_text_step [OF plain_names(7) this] obtain p4 m4 r4 t4
    where r3: "r3 = p4 @ m4 # r4" and p4: "\<forall>x\<in>set p4. member_value b x = None"
      and v4: "member_value b m4 = Some t4" and k4: "member_key m4 = ''data''"
      and e4: "t4 @ more_members_text b r4
          = JSON_quote ''JSChain genesis block'' @ CHR '','' # g5"
    by blast
  from member_of_key(4) [OF v4 k4] have m4: "m4 = M_data" .
  with v4 have d4: "JSON_stringify (data b) = Some t4" by simp
  from JSON_stringify_starts_with_quote [OF d4 e4] obtain s where s: "data b = JStr s" ..
  with d4 have "t4 = JSON_quote s" by simp
  with e4 have "JSON_quote s @ more_members_text b r4
      = JSON_quote ''JSChain genesis block'' @ CHR '','' # g5" by simp
  from JSON_quote_inj_plain [OF plain_names(2) this] s
  have d: "data b = data ?G" and "more_members_text b r4 = CHR '','' # g5"
    by (simp_all add: genesis_fields)
  then have "more_members_text b r4 = CHR '','' # JSON_quote ''hash'' @ CHR '':'' #
      (JSON_quote (hash ?G) @ ''}'')" by (simp add: g5_def)
  from more_members_text_step [OF plain_names(8) this] obtain p5 m5 r5 t5
    where r4: "r4 = p5 @ m5 # r5" and p5: "\<forall>x\<in>set p5. member_value b x = None"
      and v5: "member_value b m5 = Some t5" and k5: "member_key m5 = ''hash''"
      and e5: "t5 @ more_members_text b r5 = JSON_quote (hash ?G) @ ''}''"
    by blast
  from member_of_key(5) [OF v5 k5] have m5: "m5 = M_hash" .
  with v5 e5 have "JSON_quote (hash b) @ more_members_text b r5
      = JSON_quote (hash ?G) @ ''}''" by auto
  moreover have "\<forall>c\<in>set (hash ?G). JSON_quote_char c = [c]"
    unfolding genesis_fields by (rule plain_names)
  ultimately have h: "hash b = hash ?G" and "more_members_text b r5 = ''}''"
    using JSON_quote_inj_plain by blast+
  then have p6: "\<forall>x\<in>set r5. member_value b x = None" by (intro more_members_text_end)
  have "members b = p1 @ M_index # p2 @ M_previousHash # p3 @ M_timestamp # p4 @ M_data
      # p5 @ M_hash # r5"
    by (simp add: ms r1 r2 r3 r4 m1 m2 m3 m4 m5)
  then have "printed_members b = constructor_order"
    using d4 by (simp add: printed_members_def constructor_order_def
        no_printed [OF p1] no_printed [OF p2] no_printed [OF p3] no_printed [OF p4]
        no_printed [OF p5] no_printed [OF p6] del: not_None_eq)
  with i p t d h show "printed_members b = constructor_order
     \<and> index b = index ?G \<and> previousHash b = previousHash ?G
     \<and> timestamp b = timestamp ?G \<and> data b = data ?G \<and> hash b = hash ?G" by simp
next
  let ?G = getGenesisBlock
  let ?t = "\<lambda>b. concat (map (member_text b) (members b))"
  have printed: "?t b = concat (map (member_text b) (printed_members b))" for b
  proof -
    have "concat (map (member_text b) ms)
        = concat (map (member_text b) (filter (\<lambda>m. member_value b m \<noteq> None) ms))" for ms
      by (induction ms) (auto simp: member_text_simps)
    then show ?thesis by (simp add: printed_members_def)
  qed
  assume a: "printed_members b = constructor_order
     \<and> index b = index ?G \<and> previousHash b = previousHash ?G
     \<and> timestamp b = timestamp ?G \<and> data b = data ?G \<and> hash b = hash ?G"
  have "printed_members ?G = constructor_order"
    by (simp add: printed_members_def genesis_fields constructor_order_def)
  with a have "?t b = ?t ?G"
    unfolding printed [of b] printed [of ?G]
    by (simp add: constructor_order_def member_text_def)
  then show "JSON_stringify_block b = JSON_stringify_block ?G"
    by (simp add: JSON_stringify_block_def)
qed

lemma printed_members_constructed:
  assumes "members b = constructor_order" and "data b \<noteq> JUndefined"
  shows "printed_members b = constructor_order"
proof -
  from assms(2) have "JSON_stringify (data b) \<noteq> None" by (cases "data b") simp_all
  with assms(1) show ?thesis by (simp add: printed_members_def constructor_order_def)
qed

section \<open>The chain validator\<close>

text \<open>
  The loop keeps in \<^verbatim>\<open>tempBlocks\<close> the first \<open>i\<close> elements of the array, so that
  \<^verbatim>\<open>tempBlocks[i - 1]\<close> is the element before the one under test.
\<close>

lemma isValidChain_loop_iff:
  assumes "tempBlocks = take i bs" and "0 < i" and "i \<le> length bs"
  shows "isValidChain_loop bs tempBlocks i
     \<longleftrightarrow> (\<forall>j. i \<le> j \<and> j < length bs \<longrightarrow> isValidNewBlock (bs ! j) (bs ! (j - 1)))"
  using assms
proof (induction bs tempBlocks i rule: isValidChain_loop.induct)
  case (1 bs tmp i)
  show ?case
  proof (cases "i < length bs")
    case False
    then have "isValidChain_loop bs tmp i" by (subst isValidChain_loop.simps) simp
    moreover have "\<forall>j. i \<le> j \<and> j < length bs \<longrightarrow> isValidNewBlock (bs ! j) (bs ! (j - 1))"
    proof (intro allI impI)
      fix j assume "i \<le> j \<and> j < length bs"
      with False have False by simp
      then show "isValidNewBlock (bs ! j) (bs ! (j - 1))" ..
    qed
    ultimately show ?thesis by simp
  next
    case lt: True
    from "1.prems" have prev: "tmp ! (i - 1) = bs ! (i - 1)" by simp
    show ?thesis
    proof (cases "isValidNewBlock (bs ! i) (bs ! (i - 1))")
      case False
      with lt prev have "\<not> isValidChain_loop bs tmp i"
        by (subst isValidChain_loop.simps) simp
      moreover from False lt
      have "\<not> (\<forall>j. i \<le> j \<and> j < length bs \<longrightarrow> isValidNewBlock (bs ! j) (bs ! (j - 1)))"
        by blast
      ultimately show ?thesis by simp
    next
      case ok: True
      from lt "1.prems" have tk: "tmp @ [bs ! i] = take (i + 1) bs"
        by (simp add: take_Suc_conv_app_nth)
      from lt ok prev have "isValidChain_loop bs tmp i
          = isValidChain_loop bs (tmp @ [bs ! i]) (i + 1)"
        by (subst isValidChain_loop.simps) simp
      also have "\<dots> = (\<forall>j. i + 1 \<le> j \<and> j < length bs
          \<longrightarrow> isValidNewBlock (bs ! j) (bs ! (j - 1)))"
        using lt ok prev tk by (intro "1.IH") simp_all
      also have "\<dots> = (\<forall>j. i \<le> j \<and> j < length bs
          \<longrightarrow> isValidNewBlock (bs ! j) (bs ! (j - 1)))"
      proof
        assume h: "\<forall>j. i + 1 \<le> j \<and> j < length bs
          \<longrightarrow> isValidNewBlock (bs ! j) (bs ! (j - 1))"
        show "\<forall>j. i \<le> j \<and> j < length bs \<longrightarrow> isValidNewBlock (bs ! j) (bs ! (j - 1))"
        proof (intro allI impI)
          fix j assume j: "i \<le> j \<and> j < length bs"
          show "isValidNewBlock (bs ! j) (bs ! (j - 1))"
          proof (cases "j = i")
            case True
            with ok show ?thesis by simp
          next
            case False
            with j have "i + 1 \<le> j \<and> j < length bs" by simp
            with h show ?thesis by blast
          qed
        qed
      qed simp
      finally show ?thesis .
    qed
  qed
qed

lemma isValidChain_iff:
  "isValidChain s \<longleftrightarrow>
     s \<noteq> [] \<and> JSON_stringify_block (s ! 0) = JSON_stringify_block getGenesisBlock
     \<and> (\<forall>i. 1 \<le> i \<and> i < length s \<longrightarrow> isValidNewBlock (s ! i) (s ! (i - 1)))"
proof (cases s)
  case Nil
  then show ?thesis by (simp add: isValidChain_def)
next
  case (Cons first rest)
  have loop: "isValidChain_loop s [first] 1
     \<longleftrightarrow> (\<forall>j. 1 \<le> j \<and> j < length s \<longrightarrow> isValidNewBlock (s ! j) (s ! (j - 1)))"
    using Cons by (intro isValidChain_loop_iff) simp_all
  have e: "isValidChain s \<longleftrightarrow>
      JSON_stringify_block first = JSON_stringify_block getGenesisBlock
      \<and> isValidChain_loop s [first] 1"
    by (simp add: isValidChain_def Cons)
  have s0: "s ! 0 = first" and ne: "s \<noteq> []" using Cons by simp_all
  show ?thesis unfolding e loop s0 using ne by simp
qed

text \<open>The first block of an accepted chain has the fields of the genesis block.\<close>

lemma isValidChain_first:
  assumes "isValidChain s"
  shows "printed_members (s ! 0) = constructor_order"
    and "index (s ! 0) = index getGenesisBlock"
    and "previousHash (s ! 0) = previousHash getGenesisBlock"
    and "timestamp (s ! 0) = timestamp getGenesisBlock"
    and "data (s ! 0) = data getGenesisBlock"
    and "hash (s ! 0) = hash getGenesisBlock"
  using assms by (simp_all add: isValidChain_iff JSON_stringify_block_genesis)

lemma isValidChain_genesis: "isValidChain [getGenesisBlock]"
  by (simp add: isValidChain_iff)

lemma isValidChain_snoc:
  assumes "bs \<noteq> []"
  shows "isValidChain (bs @ [b]) \<longleftrightarrow> isValidChain bs \<and> isValidNewBlock b (last bs)"
proof -
  let ?P = "\<lambda>xs i. isValidNewBlock (xs ! i) (xs ! (i - 1))"
  have "(\<forall>i. 1 \<le> i \<and> i < length (bs @ [b]) \<longrightarrow> ?P (bs @ [b]) i)
      \<longleftrightarrow> (\<forall>i. 1 \<le> i \<and> i < length bs \<longrightarrow> ?P bs i) \<and> isValidNewBlock b (last bs)"
  proof (intro iffI conjI allI impI)
    assume h: "\<forall>i. 1 \<le> i \<and> i < length (bs @ [b]) \<longrightarrow> ?P (bs @ [b]) i"
    { fix i assume i: "1 \<le> i \<and> i < length bs"
      with h have "?P (bs @ [b]) i" by simp
      moreover from i have "i - 1 < length bs" by arith
      ultimately show "?P bs i" using i by (simp add: nth_append) }
    from assms have "1 \<le> length bs \<and> length bs < length (bs @ [b])"
      by (cases bs) simp_all
    with h have "?P (bs @ [b]) (length bs)" by blast
    with assms show "isValidNewBlock b (last bs)" by (simp add: nth_append last_conv_nth)
  next
    fix i
    assume h: "(\<forall>i. 1 \<le> i \<and> i < length bs \<longrightarrow> ?P bs i) \<and> isValidNewBlock b (last bs)"
      and i: "1 \<le> i \<and> i < length (bs @ [b])"
    show "?P (bs @ [b]) i"
    proof (cases "i < length bs")
      case True
      with h i have "?P bs i" by blast
      moreover from True have "i - 1 < length bs" by arith
      ultimately show ?thesis using True by (simp add: nth_append)
    next
      case False
      with i have "i = length bs" by simp
      with h assms show ?thesis by (simp add: nth_append last_conv_nth)
    qed
  qed
  moreover from assms have "(bs @ [b]) ! 0 = bs ! 0" by (cases bs) simp_all
  ultimately show ?thesis using assms by (simp add: isValidChain_iff)
qed

section \<open>Facts about the example values\<close>


lemma Number_add_0_1 [simp]: "Number_add 0 1 = 1"
  by (simp add: Number_add_exact)

lemma hello_block_valid: "isValidNewBlock hello_block getGenesisBlock"
  by (simp add: isValidNewBlock_def calculateHashForBlock_def hello_block_def Block_def
      genesis_fields)

lemma hello_chain_valid: "isValidChain [getGenesisBlock, hello_block]"
  using isValidChain_snoc [of "[getGenesisBlock]" hello_block]
  by (simp add: isValidChain_genesis hello_block_valid)

lemma stray_block_invalid: "\<not> isValidNewBlock stray_block getGenesisBlock"
  by (simp add: isValidNewBlock_def stray_block_def Block_def genesis_fields)

lemma same_index_block_valid: "isValidNewBlock same_index_block high_block"
  by (simp add: isValidNewBlock_def calculateHashForBlock_def same_index_block_def
      high_block_def Block_def Number_add_high)

lemma stored_genesis_fields:
  "index stored_genesis = index getGenesisBlock"
  "previousHash stored_genesis = previousHash getGenesisBlock"
  "timestamp stored_genesis = timestamp getGenesisBlock"
  "data stored_genesis = data getGenesisBlock"
  "hash stored_genesis = hash getGenesisBlock"
  "members stored_genesis = stored_order"
  by (simp_all add: stored_genesis_def)

lemma stored_genesis_rejected: "\<not> isValidChain [stored_genesis]"
proof -
  have "printed_members stored_genesis = stored_order"
    by (simp add: printed_members_def stored_genesis_fields stored_order_def genesis_fields)
  then have "printed_members stored_genesis \<noteq> constructor_order"
    by (simp add: stored_order_def constructor_order_def)
  then show ?thesis by (simp add: isValidChain_iff JSON_stringify_block_genesis)
qed

section \<open>The link validator\<close>

text \<open>
  C1 as stated: for every pair of blocks, \<^verbatim>\<open>isValidNewBlock\<close> returns true if and only if
  the candidate's index is the predecessor's index plus one, the candidate's
  \<^verbatim>\<open>previousHash\<close> equals the predecessor's \<^verbatim>\<open>hash\<close>, and the digest recomputed over the
  candidate's fields equals the candidate's \<^verbatim>\<open>hash\<close>. It does not where the sum is no
  double: on a predecessor with index \<open>2\<^sup>5\<^sup>3\<close> the code computes \<open>2\<^sup>5\<^sup>3 + 1\<close> as \<open>2\<^sup>5\<^sup>3\<close> and
  accepts the candidate with the same index.
\<close>

theorem same_index_successor_counterexample:
  "isValidNewBlock same_index_block high_block
   \<and> index same_index_block = index high_block
   \<and> index same_index_block \<noteq> index high_block + 1"
  using same_index_block_valid by (simp add: same_index_block_def high_block_def Block_def)

text \<open>
  C1 as amended: for every pair of blocks, \<^verbatim>\<open>isValidNewBlock\<close> returns true if and only if
  the candidate's index is the predecessor's index plus one as JavaScript computes the
  sum, which is the double nearest to it, the candidate's \<^verbatim>\<open>previousHash\<close> equals the
  predecessor's \<^verbatim>\<open>hash\<close>, and the digest recomputed over the candidate's index,
  \<^verbatim>\<open>previousHash\<close>, timestamp and data equals the candidate's \<^verbatim>\<open>hash\<close>. Where the
  predecessor's index plus one is at most \<open>2\<^sup>5\<^sup>3\<close> in magnitude the sum is exact, and the
  first condition is that the candidate's index is the predecessor's index plus one.
\<close>

theorem isValidNewBlock_iff:
  "(isValidNewBlock candidate predecessor \<longleftrightarrow>
      index candidate = Number_add (index predecessor) 1
      \<and> previousHash candidate = hash predecessor
      \<and> calculateHash (index candidate) (previousHash candidate) (timestamp candidate)
            (data candidate) = hash candidate)
   \<and> (\<bar>index predecessor + 1\<bar> \<le> 2 ^ 53 \<longrightarrow>
        (isValidNewBlock candidate predecessor \<longleftrightarrow>
           index candidate = index predecessor + 1
           \<and> previousHash candidate = hash predecessor
           \<and> calculateHash (index candidate) (previousHash candidate) (timestamp candidate)
                 (data candidate) = hash candidate))"
proof -
  have "isValidNewBlock candidate predecessor \<longleftrightarrow>
      index candidate = Number_add (index predecessor) 1
      \<and> previousHash candidate = hash predecessor
      \<and> calculateHash (index candidate) (previousHash candidate) (timestamp candidate)
            (data candidate) = hash candidate"
    unfolding isValidNewBlock_def calculateHashForBlock_def by auto
  then show ?thesis by (simp add: Number_add_exact)
qed

theorem isValidNewBlock_iff_witness:
  "\<bar>index getGenesisBlock + 1\<bar> \<le> 2 ^ 53
   \<and> isValidNewBlock hello_block getGenesisBlock
   \<and> index hello_block = index getGenesisBlock + 1
   \<and> previousHash hello_block = hash getGenesisBlock
   \<and> calculateHash (index hello_block) (previousHash hello_block) (timestamp hello_block)
         (data hello_block) = hash hello_block
   \<and> \<not> isValidNewBlock stray_block getGenesisBlock
   \<and> isValidNewBlock same_index_block high_block
   \<and> index same_index_block = Number_add (index high_block) 1"
proof -
  have "\<bar>index getGenesisBlock + 1\<bar> \<le> 2 ^ 53" by (simp add: genesis_fields)
  moreover have "index hello_block = index getGenesisBlock + 1"
    "previousHash hello_block = hash getGenesisBlock"
    "index stray_block \<noteq> index getGenesisBlock + 1"
    by (simp_all add: hello_block_def stray_block_def Block_def genesis_fields)
  ultimately show ?thesis
    using isValidNewBlock_iff [of hello_block getGenesisBlock]
      isValidNewBlock_iff [of stray_block getGenesisBlock]
      isValidNewBlock_iff [of same_index_block high_block]
      hello_block_valid same_index_block_valid
    by blast
qed

section \<open>The chain validator and the replacement policy\<close>

text \<open>
  C2 as stated: \<^verbatim>\<open>isValidChain\<close> returns true if and only if the sequence is not empty, its
  first element equals the genesis block in all five fields, and every later element is a
  valid successor of the element before it. It does not: the genesis block as the store
  returns it has the five values of the genesis block, and the sequence of it alone, where
  there is no later element, is rejected. What the code compares is the JSON text, and
  that follows the order of the members.
\<close>

theorem stored_genesis_counterexample:
  "[stored_genesis] \<noteq> []
   \<and> length [stored_genesis] = 1
   \<and> index ([stored_genesis] ! 0) = index getGenesisBlock
   \<and> previousHash ([stored_genesis] ! 0) = previousHash getGenesisBlock
   \<and> timestamp ([stored_genesis] ! 0) = timestamp getGenesisBlock
   \<and> data ([stored_genesis] ! 0) = data getGenesisBlock
   \<and> hash ([stored_genesis] ! 0) = hash getGenesisBlock
   \<and> \<not> isValidChain [stored_genesis]"
  using stored_genesis_rejected by (simp add: stored_genesis_fields)

text \<open>
  C2 as amended: for every sequence of blocks \<open>s\<close>, \<^verbatim>\<open>isValidChain\<close> returns true if and
  only if \<open>s\<close> is not empty, its first element has the JSON text of the genesis block,
  which is to say that its printed members are the five fields in the order of the
  constructor (index, previousHash, timestamp, data, hash) and that their values equal
  those of the genesis block, and every later element is a valid successor, by
  \<^verbatim>\<open>isValidNewBlock\<close>, of the element before it. For a first element with the members
  the constructor gives it, the condition on it is the equality of the five fields.
\<close>

theorem isValidChain_spec:
  "(isValidChain s \<longleftrightarrow>
      s \<noteq> []
      \<and> printed_members (s ! 0) = constructor_order
      \<and> (index (s ! 0) = index getGenesisBlock
         \<and> previousHash (s ! 0) = previousHash getGenesisBlock
         \<and> timestamp (s ! 0) = timestamp getGenesisBlock
         \<and> data (s ! 0) = data getGenesisBlock
         \<and> hash (s ! 0) = hash getGenesisBlock)
      \<and> (\<forall>i. 1 \<le> i \<and> i < length s \<longrightarrow> isValidNewBlock (s ! i) (s ! (i - 1))))
   \<and> (members (s ! 0) = constructor_order \<longrightarrow>
        (isValidChain s \<longleftrightarrow>
           s \<noteq> []
           \<and> (index (s ! 0) = index getGenesisBlock
              \<and> previousHash (s ! 0) = previousHash getGenesisBlock
              \<and> timestamp (s ! 0) = timestamp getGenesisBlock
              \<and> data (s ! 0) = data getGenesisBlock
              \<and> hash (s ! 0) = hash getGenesisBlock)
           \<and> (\<forall>i. 1 \<le> i \<and> i < length s \<longrightarrow> isValidNewBlock (s ! i) (s ! (i - 1)))))"
proof -
  have 1: "isValidChain s \<longleftrightarrow>
      s \<noteq> []
      \<and> printed_members (s ! 0) = constructor_order
      \<and> (index (s ! 0) = index getGenesisBlock
         \<and> previousHash (s ! 0) = previousHash getGenesisBlock
         \<and> timestamp (s ! 0) = timestamp getGenesisBlock
         \<and> data (s ! 0) = data getGenesisBlock
         \<and> hash (s ! 0) = hash getGenesisBlock)
      \<and> (\<forall>i. 1 \<le> i \<and> i < length s \<longrightarrow> isValidNewBlock (s ! i) (s ! (i - 1)))"
    by (simp only: isValidChain_iff JSON_stringify_block_genesis conj_assoc)
  have 2: "printed_members (s ! 0) = constructor_order"
    if "members (s ! 0) = constructor_order" "data (s ! 0) = data getGenesisBlock"
    using that by (intro printed_members_constructed) (simp_all add: genesis_fields)
  from 1 2 show ?thesis by blast
qed

theorem isValidChain_spec_witness:
  "isValidChain [getGenesisBlock, hello_block]
   \<and> members ([getGenesisBlock, hello_block] ! 0) = constructor_order
   \<and> printed_members ([getGenesisBlock, hello_block] ! 0) = constructor_order
   \<and> isValidNewBlock ([getGenesisBlock, hello_block] ! 1)
         ([getGenesisBlock, hello_block] ! (1 - 1))
   \<and> \<not> isValidChain [getGenesisBlock, stray_block]
   \<and> \<not> isValidChain [hello_block]
   \<and> \<not> isValidChain [stored_genesis]
   \<and> \<not> isValidChain []"
proof -
  have "\<not> isValidChain [getGenesisBlock, stray_block]"
    using isValidChain_spec [of "[getGenesisBlock, stray_block]"] stray_block_invalid
    by auto
  moreover have "index hello_block \<noteq> index getGenesisBlock"
    by (simp add: hello_block_def getGenesisBlock_def Block_def)
  then have "\<not> isValidChain [hello_block]"
    using isValidChain_spec [of "[hello_block]"] by simp
  moreover have "\<not> isValidChain []" using isValidChain_spec [of "[]"] by simp
  moreover have "printed_members stored_genesis \<noteq> constructor_order"
    by (simp add: printed_members_def stored_genesis_fields stored_order_def
        constructor_order_def genesis_fields)
  then have "\<not> isValidChain [stored_genesis]"
    using isValidChain_spec [of "[stored_genesis]"] by simp
  moreover have "printed_members getGenesisBlock = constructor_order"
    by (simp add: printed_members_def genesis_fields constructor_order_def)
  ultimately show ?thesis
    using isValidChain_spec [of "[getGenesisBlock, hello_block]"] hello_chain_valid
      hello_block_valid
    by (simp add: genesis_fields)
qed

text \<open>
  C3. For every candidate sequence and every current chain, \<^verbatim>\<open>replaceChain\<close> makes the
  candidate the new chain if and only if the candidate is accepted by \<^verbatim>\<open>isValidChain\<close>
  and is strictly longer than the current chain; in every other case the ledger is left
  as it was.
\<close>

theorem replaceChain_policy:
  "snd (replaceChain c st) =
     (if isValidChain c \<and> length (blockchain st) < length c
      then st\<lparr>blockchain := c\<rparr> else st)"
  by (simp add: replaceChain_def)

theorem replaceChain_policy_witness:
  "snd (replaceChain [getGenesisBlock, hello_block] genesis_ledger)
     = genesis_ledger\<lparr>blockchain := [getGenesisBlock, hello_block]\<rparr>
   \<and> snd (replaceChain [getGenesisBlock] genesis_ledger) = genesis_ledger
   \<and> snd (replaceChain [getGenesisBlock, stray_block] genesis_ledger) = genesis_ledger"
proof -
  have "\<not> isValidChain [getGenesisBlock, stray_block]"
    using isValidChain_snoc [of "[getGenesisBlock]" stray_block] stray_block_invalid by simp
  then show ?thesis
    using replaceChain_policy [of "[getGenesisBlock, hello_block]" genesis_ledger]
      replaceChain_policy [of "[getGenesisBlock]" genesis_ledger]
      replaceChain_policy [of "[getGenesisBlock, stray_block]" genesis_ledger]
      hello_chain_valid
    by (simp add: genesis_ledger_def)
qed

text \<open>
  C8 as stated: \<^verbatim>\<open>replaceChain\<close> returns a boolean that is true when the candidate was
  installed. It does not: for the chain of the genesis block and the block mined on it,
  offered to a ledger that holds the genesis block only, the candidate is installed and
  the call evaluates to \<^verbatim>\<open>undefined\<close>, which is not the boolean true.
\<close>

theorem replaceChain_returns_true_counterexample:
  "blockchain (snd (replaceChain [getGenesisBlock, hello_block] genesis_ledger))
     = [getGenesisBlock, hello_block]
   \<and> blockchain genesis_ledger \<noteq> [getGenesisBlock, hello_block]
   \<and> fst (replaceChain [getGenesisBlock, hello_block] genesis_ledger) \<noteq> JBool True"
  using hello_chain_valid by (simp add: replaceChain_def genesis_ledger_def)

text \<open>
  C8 as amended: for every candidate sequence and every ledger, a call of
  \<^verbatim>\<open>replaceChain\<close> evaluates to \<^verbatim>\<open>undefined\<close>, whether or not the candidate was
  installed.
\<close>

theorem replaceChain_returns_undefined:
  "fst (replaceChain c st) = JUndefined"
  by (simp add: replaceChain_def)

theorem replaceChain_returns_undefined_witness:
  "fst (replaceChain [getGenesisBlock, hello_block] genesis_ledger) = JUndefined
   \<and> fst (replaceChain [] genesis_ledger) = JUndefined"
  using replaceChain_returns_undefined [of "[getGenesisBlock, hello_block]" genesis_ledger]
    replaceChain_returns_undefined [of "[]" genesis_ledger]
  by simp

section \<open>Mining from the genesis block\<close>









section \<open>The hash of the genesis block\<close>

lemma genesis_hash_mismatch: "calculateHashForBlock getGenesisBlock \<noteq> hash getGenesisBlock"
proof -
  have "length (calculateHashForBlock getGenesisBlock) = 128"
    by (simp add: calculateHashForBlock_def calculateHash_length)
  moreover have "length (hash getGenesisBlock) = 64" by (simp add: genesis_fields)
  ultimately show ?thesis by auto
qed

text \<open>
  C9. For the genesis block \<open>G\<close>, the digest recomputed over its index,
  \<^verbatim>\<open>previousHash\<close>, timestamp and data does not equal its \<^verbatim>\<open>hash\<close>: the digest has 128
  hexadecimal digits and the constant has 64. In a chain accepted by \<^verbatim>\<open>isValidChain\<close>
  the genesis block, at position 0, is the only element whose \<^verbatim>\<open>hash\<close> is not the
  digest of its other fields.
\<close>

theorem genesis_hash_not_derived:
  "calculateHash (index getGenesisBlock) (previousHash getGenesisBlock)
      (timestamp getGenesisBlock) (data getGenesisBlock) \<noteq> hash getGenesisBlock
   \<and> (isValidChain s \<longrightarrow>
        (\<forall>i. i < length s \<longrightarrow>
           (calculateHashForBlock (s ! i) = hash (s ! i)) = (i \<noteq> 0)))"
proof (intro conjI impI allI)
  show "calculateHash (index getGenesisBlock) (previousHash getGenesisBlock)
      (timestamp getGenesisBlock) (data getGenesisBlock) \<noteq> hash getGenesisBlock"
    using genesis_hash_mismatch by (simp add: calculateHashForBlock_def)
next
  fix i assume v: "isValidChain s" and i: "i < length s"
  show "(calculateHashForBlock (s ! i) = hash (s ! i)) = (i \<noteq> 0)"
  proof (cases "i = 0")
    case True
    from isValidChain_first(6) [OF v] have "length (hash (s ! 0)) = 64"
      by (simp add: genesis_fields)
    moreover have "length (calculateHashForBlock (s ! 0)) = 128"
      by (simp add: calculateHashForBlock_def calculateHash_length)
    ultimately have "calculateHashForBlock (s ! 0) \<noteq> hash (s ! 0)" by auto
    with True show ?thesis by simp
  next
    case False
    with i have "1 \<le> i \<and> i < length s" by simp
    with v have "isValidNewBlock (s ! i) (s ! (i - 1))" by (simp add: isValidChain_iff)
    with False show ?thesis by (simp add: isValidNewBlock_def split: if_splits)
  qed
qed

theorem genesis_hash_not_derived_witness:
  "isValidChain [getGenesisBlock, hello_block]
   \<and> calculateHashForBlock ([getGenesisBlock, hello_block] ! 0)
       \<noteq> hash ([getGenesisBlock, hello_block] ! 0)
   \<and> calculateHashForBlock ([getGenesisBlock, hello_block] ! 1)
       = hash ([getGenesisBlock, hello_block] ! 1)"
proof -
  let ?s = "[getGenesisBlock, hello_block]"
  from genesis_hash_not_derived [of ?s] hello_chain_valid
  have a: "\<forall>i. i < length ?s \<longrightarrow> (calculateHashForBlock (?s ! i) = hash (?s ! i)) = (i \<noteq> 0)"
    by blast
  from a [rule_format, of 0] a [rule_format, of 1] hello_chain_valid show ?thesis by simp
qed

section \<open>What the digest can and cannot tell apart\<close>

lemma whole_toString [simp]: "Number_toString (whole i) = int_toString i"
proof -
  have "nat \<bar>1000 * i\<bar> = 1000 * nat \<bar>i\<bar>" by (simp add: abs_mult nat_mult_distrib)
  then show ?thesis by (simp add: whole_def int_toString_def fraction_def)
qed

lemma int_toString_1 [simp]: "int_toString 1 = ''1''"
  by (simp add: int_toString_def digits.simps digit_char_def)

lemma int_toString_12 [simp]: "int_toString 12 = ''12''"
  by (simp add: int_toString_def digits.simps digit_char_def)

text \<open>
  C5 as stated: altering one of the fields index, \<^verbatim>\<open>previousHash\<close>, timestamp or data of
  a validly linked block to a different value, without recomputing the hash, makes
  \<^verbatim>\<open>isValidNewBlock\<close> return false. It does not for the data: the block mined on the
  genesis block with the payload \<^verbatim>\<open>{"amount": 1}\<close> is a valid successor of the genesis
  block, and so is the same block with the payload altered to \<^verbatim>\<open>{"amount": 1000}\<close>, its
  hash left as it was. Both payloads enter the digest as the text \<^verbatim>\<open>[object Object]\<close>.
\<close>

theorem tamper_data_counterexample:
  "isValidNewBlock payment_block getGenesisBlock
   \<and> altered_payment_block = payment_block\<lparr>data := JObj [(''amount'', JNum (whole 1000))]\<rparr>
   \<and> data altered_payment_block \<noteq> data payment_block
   \<and> index altered_payment_block = index payment_block
   \<and> previousHash altered_payment_block = previousHash payment_block
   \<and> timestamp altered_payment_block = timestamp payment_block
   \<and> hash altered_payment_block = hash payment_block
   \<and> isValidNewBlock altered_payment_block getGenesisBlock"
  by (simp add: isValidNewBlock_def calculateHashForBlock_def calculateHash_def
      hashInput_def altered_payment_block_def payment_block_def Block_def genesis_fields
      whole_def)

lemma blockInput_timestamp:
  assumes "ts \<noteq> timestamp B"
  shows "blockInput (B\<lparr>timestamp := ts\<rparr>) \<noteq> blockInput B"
  using assms by (auto simp: blockInput_def hashInput_def dest: Number_toString_inj)

lemma blockInput_data:
  assumes "ToString dat \<noteq> ToString (data B)"
  shows "blockInput (B\<lparr>data := dat\<rparr>) \<noteq> blockInput B"
  using assms by (simp add: blockInput_def hashInput_def)

lemma isValidNewBlock_checks:
  "isValidNewBlock b p \<longleftrightarrow>
     index b = Number_add (index p) 1 \<and> previousHash b = hash p
     \<and> SHA512 (blockInput b) = hash b"
  by (auto simp: isValidNewBlock_def calculateHashForBlock_def calculateHash_def
      blockInput_def)

lemma valid_same_hash_collision:
  assumes "isValidNewBlock B P" and "isValidNewBlock B' P" and "hash B' = hash B"
    and "blockInput B' \<noteq> blockInput B"
  shows "collision (blockInput B') (blockInput B)"
  using assms by (simp add: isValidNewBlock_checks collision_def)

text \<open>
  C5 as amended: for every validly linked pair \<open>(B, P)\<close>, altering the index or the
  \<^verbatim>\<open>previousHash\<close> of \<open>B\<close> to a different value makes \<^verbatim>\<open>isValidNewBlock\<close> return
  false; altering the timestamp to a different value, or the data to a value with a
  different string form, makes it return false unless SHA-512 maps the two different
  concatenated strings to the same digest. The hash of \<open>B\<close> is not recomputed.
\<close>

theorem tamper_detection:
  assumes "isValidNewBlock B P"
  shows "(idx \<noteq> index B \<longrightarrow> \<not> isValidNewBlock (B\<lparr>index := idx\<rparr>) P)
     \<and> (prev \<noteq> previousHash B \<longrightarrow> \<not> isValidNewBlock (B\<lparr>previousHash := prev\<rparr>) P)
     \<and> (ts \<noteq> timestamp B \<longrightarrow>
          \<not> isValidNewBlock (B\<lparr>timestamp := ts\<rparr>) P
          \<or> collision (blockInput (B\<lparr>timestamp := ts\<rparr>)) (blockInput B))
     \<and> (ToString dat \<noteq> ToString (data B) \<longrightarrow>
          \<not> isValidNewBlock (B\<lparr>data := dat\<rparr>) P
          \<or> collision (blockInput (B\<lparr>data := dat\<rparr>)) (blockInput B))"
proof (intro conjI impI)
  assume "idx \<noteq> index B"
  with assms show "\<not> isValidNewBlock (B\<lparr>index := idx\<rparr>) P"
    by (simp add: isValidNewBlock_checks)
next
  assume "prev \<noteq> previousHash B"
  with assms show "\<not> isValidNewBlock (B\<lparr>previousHash := prev\<rparr>) P"
    by (simp add: isValidNewBlock_checks)
next
  assume "ts \<noteq> timestamp B"
  then have "blockInput (B\<lparr>timestamp := ts\<rparr>) \<noteq> blockInput B"
    by (rule blockInput_timestamp)
  with assms valid_same_hash_collision [of B P "B\<lparr>timestamp := ts\<rparr>"]
  show "\<not> isValidNewBlock (B\<lparr>timestamp := ts\<rparr>) P
      \<or> collision (blockInput (B\<lparr>timestamp := ts\<rparr>)) (blockInput B)" by auto
next
  assume "ToString dat \<noteq> ToString (data B)"
  then have "blockInput (B\<lparr>data := dat\<rparr>) \<noteq> blockInput B"
    by (rule blockInput_data)
  with assms valid_same_hash_collision [of B P "B\<lparr>data := dat\<rparr>"]
  show "\<not> isValidNewBlock (B\<lparr>data := dat\<rparr>) P
      \<or> collision (blockInput (B\<lparr>data := dat\<rparr>)) (blockInput B)" by auto
qed

theorem tamper_detection_witness:
  "isValidNewBlock hello_block getGenesisBlock
   \<and> \<not> isValidNewBlock (hello_block\<lparr>index := 7\<rparr>) getGenesisBlock
   \<and> \<not> isValidNewBlock (hello_block\<lparr>previousHash := ''00''\<rparr>) getGenesisBlock
   \<and> (collision (blockInput (hello_block\<lparr>timestamp := whole 5\<rparr>)) (blockInput hello_block)
        \<or> \<not> isValidNewBlock (hello_block\<lparr>timestamp := whole 5\<rparr>) getGenesisBlock)
   \<and> (collision (blockInput (hello_block\<lparr>data := JStr ''bye''\<rparr>)) (blockInput hello_block)
        \<or> \<not> isValidNewBlock (hello_block\<lparr>data := JStr ''bye''\<rparr>) getGenesisBlock)"
proof -
  have "(7::int) \<noteq> index hello_block" "''00'' \<noteq> previousHash hello_block"
    "whole 5 \<noteq> timestamp hello_block" "ToString (JStr ''bye'') \<noteq> ToString (data hello_block)"
    by (simp_all add: hello_block_def Block_def genesis_fields whole_def)
  with tamper_detection [OF hello_block_valid, of 7 "''00''" "whole 5" "JStr ''bye''"]
    hello_block_valid
  show ?thesis by blast
qed

text \<open>
  C10. The four fields are concatenated without separators, so different fields can give
  the same string: with the same index and \<^verbatim>\<open>previousHash\<close>, the timestamp 1 with the
  data \<^verbatim>\<open>"23"\<close> and the timestamp 12 with the data \<^verbatim>\<open>"3"\<close> both end in \<^verbatim>\<open>123\<close>. The two have
  the same digest, and \<^verbatim>\<open>isValidNewBlock\<close> gives the same answer for two blocks that
  differ in this way only.
\<close>

theorem hashInput_not_injective:
  "\<not> inj (\<lambda>(idx, prev, ts, dat). hashInput idx prev ts dat)
   \<and> (whole 1, JStr ''23'') \<noteq> (whole 12, JStr ''3'')
   \<and> hashInput idx prev (whole 1) (JStr ''23'') = hashInput idx prev (whole 12) (JStr ''3'')
   \<and> calculateHash idx prev (whole 1) (JStr ''23'')
       = calculateHash idx prev (whole 12) (JStr ''3'')
   \<and> isValidNewBlock (Block idx prev (whole 1) (JStr ''23'') h) P
       = isValidNewBlock (Block idx prev (whole 12) (JStr ''3'') h) P"
proof -
  have e: "hashInput i p (whole 1) (JStr ''23'') = hashInput i p (whole 12) (JStr ''3'')"
    for i p by (simp add: hashInput_def)
  have "\<not> inj (\<lambda>(idx, prev, ts, dat). hashInput idx prev ts dat)"
  proof
    assume "inj (\<lambda>(idx, prev, ts, dat). hashInput idx prev ts dat)"
    then have "(0::int, []::string, whole 1, JStr ''23'') = (0, [], whole 12, JStr ''3'')"
      by (rule injD) (simp add: e)
    then show False by simp
  qed
  then show ?thesis
    by (simp add: e isValidNewBlock_def calculateHashForBlock_def calculateHash_def
        Block_def)
qed

theorem hashInput_not_injective_witness:
  "hashInput 1 (hash getGenesisBlock) (whole 1) (JStr ''23'')
     = hashInput 1 (hash getGenesisBlock) (whole 12) (JStr ''3'')
   \<and> isValidNewBlock
        (Block 1 (hash getGenesisBlock) (whole 1) (JStr ''23'')
           (calculateHash 1 (hash getGenesisBlock) (whole 1) (JStr ''23''))) getGenesisBlock
   \<and> isValidNewBlock
        (Block 1 (hash getGenesisBlock) (whole 12) (JStr ''3'')
           (calculateHash 1 (hash getGenesisBlock) (whole 1) (JStr ''23''))) getGenesisBlock"
proof -
  let ?h = "calculateHash 1 (hash getGenesisBlock) (whole 1) (JStr ''23'')"
  have "isValidNewBlock (Block 1 (hash getGenesisBlock) (whole 1) (JStr ''23'') ?h)
      getGenesisBlock"
    by (simp add: isValidNewBlock_def calculateHashForBlock_def Block_def genesis_fields)
  with hashInput_not_injective [of 1 "hash getGenesisBlock" ?h getGenesisBlock]
  show ?thesis by blast
qed

section \<open>The route that mines a block\<close>

text \<open>
  Through the route itself the block handed on by \<^verbatim>\<open>generateNextBlock\<close> is always a
  valid successor of the latest block (\<open>generateNextBlock_valid\<close>). What the route does
  with a block that is not is read off the function passed to \<^verbatim>\<open>then\<close>.
\<close>

text \<open>
  C6 as stated: when the validation of the freshly constructed block fails, the caller
  receives an error response and no block is appended to the chain in memory nor
  persisted to the store. The code does not do that: for a ledger holding the genesis
  block and a block that \<^verbatim>\<open>isValidNewBlock\<close> rejects, the chain in memory is left alone,
  but the block is handed to the store and sent back with status 200.
\<close>

theorem mineBlock_rejected_counterexample:
  "getLatestBlock genesis_ledger = Some getGenesisBlock
   \<and> \<not> isValidNewBlock stray_block getGenesisBlock
   \<and> mineBlock_then True stray_block genesis_ledger
       = (genesis_ledger\<lparr>db := db genesis_ledger @ [stray_block]\<rparr>,
          Some \<lparr>status = 200, body = stray_block\<rparr>)"
  using stray_block_invalid
  by (simp add: mineBlock_then_def addBlock_def insertBlock_def res_json_def
      getLatestBlock_def genesis_ledger_def)

text \<open>
  C6 as amended: when the validation of the block fails during the mine operation, no
  block is appended to the chain in memory, and the caller receives the block itself
  with status 200; the code has no error response.
\<close>

theorem mineBlock_rejected:
  assumes "getLatestBlock st = Some latest" and "\<not> isValidNewBlock newBlock latest"
  shows "blockchain (fst (mineBlock_then post_ok newBlock st)) = blockchain st
     \<and> snd (mineBlock_then post_ok newBlock st) = Some \<lparr>status = 200, body = newBlock\<rparr>"
  using assms
  by (simp add: mineBlock_then_def addBlock_def insertBlock_def res_json_def)

theorem mineBlock_rejected_witness:
  "getLatestBlock genesis_ledger = Some getGenesisBlock
   \<and> \<not> isValidNewBlock stray_block getGenesisBlock
   \<and> blockchain (fst (mineBlock_then False stray_block genesis_ledger))
       = [getGenesisBlock]
   \<and> snd (mineBlock_then False stray_block genesis_ledger)
       = Some \<lparr>status = 200, body = stray_block\<rparr>"
proof -
  have l: "getLatestBlock genesis_ledger = Some getGenesisBlock"
    by (simp add: getLatestBlock_def genesis_ledger_def)
  have n: "\<not> isValidNewBlock stray_block getGenesisBlock" by (rule stray_block_invalid)
  from mineBlock_rejected [OF l n, of False] l n show ?thesis
    by (simp add: genesis_ledger_def)
qed

text \<open>
  On an empty chain no block can be built: the promise of \<^verbatim>\<open>generateNextBlock\<close> is
  rejected, the ledger stays as it is and the request gets no answer.
\<close>

lemma mineBlock_empty_chain:
  "mineBlock now post_ok blockData \<lparr>blockchain = [], db = store\<rparr>
     = (\<lparr>blockchain = [], db = store\<rparr>, None)"
  by (simp add: mineBlock_def generateNextBlock_def getLatestBlock_def)

section \<open>Startup\<close>

text \<open>
  C7 as stated: after startup the chain is not empty, and it is the genesis block alone
  if the store held no blocks. It is not: \<^verbatim>\<open>startup\<close> on an empty store completes with
  the empty chain.
\<close>

theorem startup_empty_store_counterexample:
  "startup True [] = Some \<lparr>blockchain = [], db = []\<rparr>
   \<and> blockchain \<lparr>blockchain = [], db = []\<rparr> \<noteq> [getGenesisBlock]"
  by (simp add: startup_def db_find_def)

text \<open>
  C7 as amended: after startup completes, the chain in memory is the list of the stored
  documents whose index is at least 0, as the store returns them, with nothing added; in
  particular, if the store held no blocks, the chain is empty.
\<close>

theorem startup_chain:
  assumes "startup find_ok store = Some st"
  shows "blockchain st = filter (\<lambda>doc. 0 \<le> index doc) store
     \<and> (store = [] \<longrightarrow> blockchain st = [])"
  using assms by (auto simp: startup_def db_find_def split: if_splits)

theorem startup_chain_witness:
  "startup True [] = Some \<lparr>blockchain = [], db = []\<rparr>
   \<and> blockchain \<lparr>blockchain = [], db = []\<rparr> = []
   \<and> startup True [getGenesisBlock, hello_block]
       = Some \<lparr>blockchain = [getGenesisBlock, hello_block],
               db = [getGenesisBlock, hello_block]\<rparr>"
proof -
  have a: "startup True [] = Some \<lparr>blockchain = [], db = []\<rparr>"
    by (simp add: startup_def db_find_def)
  have b: "startup True [getGenesisBlock, hello_block]
       = Some \<lparr>blockchain = [getGenesisBlock, hello_block],
               db = [getGenesisBlock, hello_block]\<rparr>"
    by (simp add: startup_def db_find_def genesis_fields hello_block_def Block_def)
  from startup_chain [OF a] a b show ?thesis by simp
qed


end
